theory Spec2Isabelle
  imports Main "HOL-Library.Word" "HOL-Library.Sublist"
begin

section \<open>Order.hpp: orders and trades\<close>

type_synonym u32 = "32 word"
type_synonym u64 = "64 word"

datatype OrderSide = BUY | SELL

datatype OrderType = LIMIT | MARKET

datatype OrderStatus = NEW | PARTIAL_FILL | FILLED | CANCELLED | REJECTED

text \<open>
  \<^verbatim>\<open>struct Order\<close>. The field \<^verbatim>\<open>type\<close> is called \<open>otype\<close> here.
  Prices and quantities are \<^verbatim>\<open>uint32_t\<close>, ids and timestamps
  \<^verbatim>\<open>uint64_t\<close>: arithmetic on them wraps and comparisons are unsigned.
\<close>

record Order =
  orderId :: u64
  timestamp :: u64
  price :: u32
  quantity :: u32
  filledQuantity :: u32
  side :: OrderSide
  otype :: OrderType
  status :: OrderStatus

text \<open>The constructor \<^verbatim>\<open>Order(id, ts, p, qty, s)\<close>.\<close>

definition mkOrder :: "u64 \<Rightarrow> u64 \<Rightarrow> u32 \<Rightarrow> u32 \<Rightarrow> OrderSide \<Rightarrow> Order" where
  "mkOrder oid ts p qty s =
     \<lparr>orderId = oid, timestamp = ts, price = p, quantity = qty, filledQuantity = 0,
      side = s, otype = LIMIT, status = NEW\<rparr>"

definition getRemainingQuantity :: "Order \<Rightarrow> u32" where
  "getRemainingQuantity ord = quantity ord - filledQuantity ord"

definition isFilled :: "Order \<Rightarrow> bool" where
  "isFilled ord = (filledQuantity ord \<ge> quantity ord)"

definition fill :: "Order \<Rightarrow> u32 \<Rightarrow> Order" where
  "fill ord qty =
     (let ord1 = ord\<lparr>filledQuantity := filledQuantity ord + qty\<rparr>
      in if isFilled ord1 then ord1\<lparr>status := FILLED\<rparr>
         else ord1\<lparr>status := PARTIAL_FILL\<rparr>)"

text \<open>\<^verbatim>\<open>struct Trade\<close>; its fields carry the prefix \<open>trade_\<close>.\<close>

record Trade =
  buyOrderId :: u64
  sellOrderId :: u64
  trade_price :: u32
  trade_quantity :: u32
  trade_timestamp :: u64

section \<open>OrderBook.hpp: price levels\<close>

text \<open>
  Orders are shared objects (\<^verbatim>\<open>std::shared_ptr<Order>\<close>): the order index and the
  queue of a price level point to the same object. The model keeps every \<^verbatim>\<open>Order\<close>
  object in a store, a list indexed by handle (the handle is the position; a new object
  is appended), and queues and index hold handles.
\<close>

type_synonym handle = nat

record PriceLevel =
  level_price :: u32
  totalQuantity :: u32
  orders :: "handle list"

definition mkPriceLevel :: "u32 \<Rightarrow> PriceLevel" where
  "mkPriceLevel p = \<lparr>level_price = p, totalQuantity = 0, orders = []\<rparr>"

text \<open>\<^verbatim>\<open>PriceLevel::addOrder\<close>, \<^verbatim>\<open>removeOrder\<close> and \<^verbatim>\<open>isEmpty\<close>; they read the
  order through its pointer, so they take the store.\<close>

definition level_addOrder :: "Order list \<Rightarrow> PriceLevel \<Rightarrow> handle \<Rightarrow> PriceLevel" where
  "level_addOrder st lvl h =
     lvl\<lparr>orders := orders lvl @ [h],
         totalQuantity := totalQuantity lvl + getRemainingQuantity (st ! h)\<rparr>"

definition level_removeOrder :: "Order list \<Rightarrow> PriceLevel \<Rightarrow> handle \<Rightarrow> PriceLevel" where
  "level_removeOrder st lvl h =
     lvl\<lparr>totalQuantity := totalQuantity lvl - getRemainingQuantity (st ! h),
         orders := removeAll h (orders lvl)\<rparr>"

definition isEmpty :: "PriceLevel \<Rightarrow> bool" where
  "isEmpty lvl = (orders lvl = [])"

section \<open>OrderBook.hpp: the ladders\<close>

text \<open>
  A ladder is a \<^verbatim>\<open>std::map\<close> from price to price level, ordered by its comparator
  (\<^verbatim>\<open>std::greater\<close> for the bids, \<^verbatim>\<open>std::less\<close> for the asks). It is modelled
  as the list of its entries in iteration order: \<^verbatim>\<open>begin()\<close> is the head of the list.
\<close>

type_synonym ladder = "(u32 \<times> PriceLevel) list"

text \<open>\<^verbatim>\<open>find\<close>.\<close>

definition ladder_find :: "ladder \<Rightarrow> u32 \<Rightarrow> PriceLevel option" where
  "ladder_find m k = map_of m k"

text \<open>A write to the level that \<^verbatim>\<open>find\<close> returned, through its pointer.\<close>

fun ladder_update :: "u32 \<Rightarrow> (PriceLevel \<Rightarrow> PriceLevel) \<Rightarrow> ladder \<Rightarrow> ladder" where
  "ladder_update k f [] = []"
| "ladder_update k f ((k', lvl) # m) =
     (if k' = k then (k', f lvl) # m else (k', lvl) # ladder_update k f m)"

text \<open>\<^verbatim>\<open>erase(it)\<close> for the iterator that \<^verbatim>\<open>find\<close> returned.\<close>

fun ladder_erase :: "u32 \<Rightarrow> ladder \<Rightarrow> ladder" where
  "ladder_erase k [] = []"
| "ladder_erase k ((k', lvl) # m) =
     (if k' = k then m else (k', lvl) # ladder_erase k m)"

text \<open>Insertion of a key that is absent, at its place in the comparator's order;
  \<open>bef\<close> is the comparator.\<close>

fun ladder_insert :: "(u32 \<Rightarrow> u32 \<Rightarrow> bool) \<Rightarrow> u32 \<Rightarrow> PriceLevel \<Rightarrow> ladder \<Rightarrow> ladder" where
  "ladder_insert bef k lvl [] = [(k, lvl)]"
| "ladder_insert bef k lvl ((k', lvl') # m) =
     (if bef k k' then (k, lvl) # (k', lvl') # m
      else (k', lvl') # ladder_insert bef k lvl m)"

section \<open>OrderBook.hpp: the book\<close>

record OrderBook =
  store :: "Order list"
  bids :: ladder
  asks :: ladder
  orderMap :: "u64 \<rightharpoonup> handle"
  trades :: "Trade list"
  nextOrderId :: u64

definition emptyBook :: OrderBook where
  "emptyBook = \<lparr>store = [], bids = [], asks = [], orderMap = Map.empty, trades = [],
                 nextOrderId = 1\<rparr>"

subsection \<open>matchOrders\<close>

text \<open>
  The loop of \<^verbatim>\<open>matchOrders(incomingOrder, priceLevel)\<close>. The level is the object the
  ladder's best entry points to; the loop works on it and the caller's ladder sees the
  result. \<open>inc\<close> is the handle of the incoming order.
\<close>

definition matchOrders_cond :: "handle \<Rightarrow> PriceLevel \<Rightarrow> OrderBook \<Rightarrow> bool" where
  "matchOrders_cond inc lvl s = (\<not> isFilled (store s ! inc) \<and> \<not> isEmpty lvl)"

definition matchOrders_body :: "handle \<Rightarrow> PriceLevel \<Rightarrow> OrderBook \<Rightarrow> PriceLevel \<times> OrderBook" where
  "matchOrders_body inc lvl s =
     (let restingOrder = hd (orders lvl);
          tradeQty = min (getRemainingQuantity (store s ! inc))
                         (getRemainingQuantity (store s ! restingOrder));
          st1 = (store s)[inc := fill (store s ! inc) tradeQty];
          st2 = st1[restingOrder := fill (st1 ! restingOrder) tradeQty];
          buyId = (if side (st2 ! inc) = BUY then orderId (st2 ! inc)
                   else orderId (st2 ! restingOrder));
          sellId = (if side (st2 ! inc) = SELL then orderId (st2 ! inc)
                    else orderId (st2 ! restingOrder));
          tr = \<lparr>buyOrderId = buyId, sellOrderId = sellId,
                trade_price = price (st2 ! restingOrder), trade_quantity = tradeQty,
                trade_timestamp = timestamp (st2 ! inc)\<rparr>;
          s1 = s\<lparr>store := st2, trades := trades s @ [tr]\<rparr>
      in if isFilled (st2 ! restingOrder)
         then (level_removeOrder st2 lvl restingOrder,
               s1\<lparr>orderMap := (orderMap s1)(orderId (st2 ! restingOrder) := None)\<rparr>)
         else (lvl, s1))"

partial_function (option) matchOrders ::
    "handle \<Rightarrow> PriceLevel \<Rightarrow> OrderBook \<Rightarrow> (PriceLevel \<times> OrderBook) option" where
  "matchOrders inc lvl s =
     (if matchOrders_cond inc lvl s
      then (case matchOrders_body inc lvl s of (lvl', s') \<Rightarrow> matchOrders inc lvl' s')
      else Some (lvl, s))"

subsection \<open>addBuyOrder and addSellOrder\<close>

text \<open>
  \<^verbatim>\<open>addBuyOrder\<close> and \<^verbatim>\<open>addSellOrder\<close> are the same code with the two ladders
  and the direction of the price comparison exchanged. The model writes that code once,
  with the side \<open>sd\<close> of the incoming order as a parameter: \<open>ladder_of sd\<close> is the
  ladder the order would rest in, \<open>ladder_of (opposite sd)\<close> the one it is matched
  against, and \<open>before sd\<close> the comparator of \<open>ladder_of sd\<close>.
\<close>

fun opposite :: "OrderSide \<Rightarrow> OrderSide" where
  "opposite BUY = SELL"
| "opposite SELL = BUY"

fun before :: "OrderSide \<Rightarrow> u32 \<Rightarrow> u32 \<Rightarrow> bool" where
  "before BUY a b = (a > b)"
| "before SELL a b = (a < b)"

definition ladder_of :: "OrderSide \<Rightarrow> OrderBook \<Rightarrow> ladder" where
  "ladder_of sd s = (if sd = BUY then bids s else asks s)"

definition ladder_map :: "OrderSide \<Rightarrow> (ladder \<Rightarrow> ladder) \<Rightarrow> OrderBook \<Rightarrow> OrderBook" where
  "ladder_map sd f s = (if sd = BUY then s\<lparr>bids := f (bids s)\<rparr> else s\<lparr>asks := f (asks s)\<rparr>)"

text \<open>What the caller's ladder holds after \<^verbatim>\<open>matchOrders\<close> has worked on the level of
  its first entry: the entry with the level as it is now, or, after
  \<^verbatim>\<open>erase(begin())\<close> of an empty level, the rest.\<close>

definition after_match :: "PriceLevel \<Rightarrow> ladder \<Rightarrow> ladder" where
  "after_match lvl m = (if isEmpty lvl then tl m else (fst (hd m), lvl) # tl m)"

text \<open>The \<^verbatim>\<open>while\<close> loop of \<^verbatim>\<open>addBuyOrder\<close> (\<open>sd = BUY\<close>, matching against the
  asks, leaving when \<^verbatim>\<open>order->price < bestAsk->price\<close>) and of \<^verbatim>\<open>addSellOrder\<close>
  (\<open>sd = SELL\<close>, matching against the bids, leaving when
  \<^verbatim>\<open>order->price > bestBid->price\<close>).\<close>

partial_function (option) addSideOrder_loop ::
    "OrderSide \<Rightarrow> handle \<Rightarrow> OrderBook \<Rightarrow> OrderBook option" where
  "addSideOrder_loop sd inc s =
     (if \<not> isFilled (store s ! inc) \<and> ladder_of (opposite sd) s \<noteq> []
      then (let best = snd (hd (ladder_of (opposite sd) s))
            in if before (opposite sd) (price (store s ! inc)) (level_price best)
               then Some s
               else Option.bind (matchOrders inc best s)
                      (\<lambda>(lvl', s'). addSideOrder_loop sd inc
                                       (ladder_map (opposite sd) (after_match lvl') s')))
      else Some s)"

text \<open>The end of both functions: \<^verbatim>\<open>auto& priceLevel = bids[order->price]\<close>, a new
  level when there was none, and \<^verbatim>\<open>priceLevel->addOrder(order)\<close>.\<close>

definition ladder_addOrder ::
    "(u32 \<Rightarrow> u32 \<Rightarrow> bool) \<Rightarrow> Order list \<Rightarrow> handle \<Rightarrow> ladder \<Rightarrow> ladder" where
  "ladder_addOrder bef st h m =
     (let p = price (st ! h)
      in case ladder_find m p of
           None \<Rightarrow> ladder_insert bef p (level_addOrder st (mkPriceLevel p) h) m
         | Some lvl \<Rightarrow> ladder_update p (\<lambda>l. level_addOrder st l h) m)"

definition addSideOrder :: "OrderSide \<Rightarrow> handle \<Rightarrow> OrderBook \<Rightarrow> OrderBook option" where
  "addSideOrder sd inc s =
     Option.bind (addSideOrder_loop sd inc s)
       (\<lambda>s1. Some (if \<not> isFilled (store s1 ! inc)
                    then ladder_map sd (ladder_addOrder (before sd) (store s1) inc) s1
                    else s1))"

definition addBuyOrder :: "handle \<Rightarrow> OrderBook \<Rightarrow> OrderBook option" where
  "addBuyOrder inc s = addSideOrder BUY inc s"

definition addSellOrder :: "handle \<Rightarrow> OrderBook \<Rightarrow> OrderBook option" where
  "addSellOrder inc s = addSideOrder SELL inc s"

subsection \<open>The public operations\<close>

text \<open>\<^verbatim>\<open>addOrder\<close>: the result is \<open>None\<close> when a loop does not end, and the
  returned id with the new book otherwise.\<close>

definition addOrder ::
    "OrderBook \<Rightarrow> u32 \<Rightarrow> u32 \<Rightarrow> OrderSide \<Rightarrow> u64 \<Rightarrow> (u64 \<times> OrderBook) option" where
  "addOrder s p qty sd ts =
     (let h = length (store s);
          ord = mkOrder (nextOrderId s) ts p qty sd;
          s1 = s\<lparr>store := store s @ [ord], nextOrderId := nextOrderId s + 1,
                 orderMap := (orderMap s)(orderId ord \<mapsto> h)\<rparr>
      in Option.bind (if sd = BUY then addBuyOrder h s1 else addSellOrder h s1)
           (\<lambda>s2. Some (orderId (store s2 ! h), s2)))"

text \<open>The private \<^verbatim>\<open>OrderBook::removeOrder\<close>; its two branches differ in the ladder only.\<close>

definition removeOrder :: "handle \<Rightarrow> OrderBook \<Rightarrow> OrderBook" where
  "removeOrder h s =
     (let sd = side (store s ! h); p = price (store s ! h)
      in case ladder_find (ladder_of sd s) p of
           None \<Rightarrow> s
         | Some lvl \<Rightarrow>
             (let lvl' = level_removeOrder (store s) lvl h
              in if isEmpty lvl' then ladder_map sd (ladder_erase p) s
                 else ladder_map sd (ladder_update p (\<lambda>l. lvl')) s))"

definition cancelOrder :: "OrderBook \<Rightarrow> u64 \<Rightarrow> bool \<times> OrderBook" where
  "cancelOrder s oid =
     (case orderMap s oid of
        None \<Rightarrow> (False, s)
      | Some h \<Rightarrow>
          if status (store s ! h) = FILLED \<or> status (store s ! h) = CANCELLED
          then (False, s)
          else (let s1 = removeOrder h s;
                    s2 = s1\<lparr>store := (store s1)[h := (store s1 ! h)\<lparr>status := CANCELLED\<rparr>]\<rparr>
                in (True, s2\<lparr>orderMap := (orderMap s2)(oid := None)\<rparr>)))"

definition modifyOrder :: "OrderBook \<Rightarrow> u64 \<Rightarrow> u32 \<Rightarrow> bool \<times> OrderBook" where
  "modifyOrder s oid newQuantity =
     (case orderMap s oid of
        None \<Rightarrow> (False, s)
      | Some h \<Rightarrow>
          (let ord = store s ! h;
               oldQuantity = quantity ord;
               s1 = s\<lparr>store := (store s)[h := ord\<lparr>quantity := newQuantity\<rparr>]\<rparr>
           in (True,
               ladder_map (side ord)
                 (ladder_update (price ord)
                    (\<lambda>l. l\<lparr>totalQuantity := totalQuantity l + (newQuantity - oldQuantity)\<rparr>))
                 s1)))"

definition getBestBid :: "OrderBook \<Rightarrow> u32" where
  "getBestBid s = (if bids s = [] then 0 else fst (hd (bids s)))"

definition getBestAsk :: "OrderBook \<Rightarrow> u32" where
  "getBestAsk s = (if asks s = [] then 0 else fst (hd (asks s)))"

definition getBidDepth :: "OrderBook \<Rightarrow> nat" where
  "getBidDepth s = length (bids s)"

definition getAskDepth :: "OrderBook \<Rightarrow> nat" where
  "getAskDepth s = length (asks s)"

definition getTrades :: "OrderBook \<Rightarrow> Trade list" where
  "getTrades s = trades s"

subsection \<open>Sequences of operations\<close>

datatype Op = Submit u32 u32 OrderSide u64 | Cancel u64 | Modify u64 u32

fun step :: "OrderBook \<Rightarrow> Op \<Rightarrow> OrderBook option" where
  "step s (Submit p qty sd ts) = map_option snd (addOrder s p qty sd ts)"
| "step s (Cancel oid) = Some (snd (cancelOrder s oid))"
| "step s (Modify oid qty) = Some (snd (modifyOrder s oid qty))"

fun run :: "OrderBook \<Rightarrow> Op list \<Rightarrow> OrderBook option" where
  "run s [] = Some s"
| "run s (x # xs) = Option.bind (step s x) (\<lambda>s'. run s' xs)"

section \<open>Predicates used in the proofs\<close>

definition match_pre :: "handle \<Rightarrow> PriceLevel \<Rightarrow> OrderBook \<Rightarrow> bool" where
  "match_pre inc lvl s \<longleftrightarrow>
     inc < length (store s) \<and> inc \<notin> set (orders lvl) \<and> distinct (orders lvl) \<and>
     (\<forall>h \<in> set (orders lvl). h < length (store s))"

definition match_qty :: "handle \<Rightarrow> PriceLevel \<Rightarrow> OrderBook \<Rightarrow> u32" where
  "match_qty inc lvl s =
     min (getRemainingQuantity (store s ! inc)) (getRemainingQuantity (store s ! hd (orders lvl)))"

definition match_measure :: "handle \<Rightarrow> PriceLevel \<Rightarrow> OrderBook \<Rightarrow> nat" where
  "match_measure inc lvl s = length (orders lvl) + (if isFilled (store s ! inc) then 0 else 1)"

text \<open>The sum of the remaining quantities of the orders in a level's queue, in the
  32-bit arithmetic of \<^verbatim>\<open>totalQuantity\<close>.\<close>

definition level_sum :: "Order list \<Rightarrow> PriceLevel \<Rightarrow> u32" where
  "level_sum st lvl = sum_list (map (\<lambda>h. getRemainingQuantity (st ! h)) (orders lvl))"

text \<open>The book after \<^verbatim>\<open>addOrder(100, 50, SELL, 0)\<close> and \<^verbatim>\<open>addOrder(100, 30, BUY, 7)\<close>
  on a new book: order 1 rests, partially filled.\<close>

definition book_partial :: OrderBook where
  "book_partial =
     \<lparr>store = [\<lparr>orderId = 1, timestamp = 0, price = 100, quantity = 50, filledQuantity = 30,
                 side = SELL, otype = LIMIT, status = PARTIAL_FILL\<rparr>,
               \<lparr>orderId = 2, timestamp = 7, price = 100, quantity = 30, filledQuantity = 30,
                 side = BUY, otype = LIMIT, status = FILLED\<rparr>],
      bids = [],
      asks = [(100, \<lparr>level_price = 100, totalQuantity = 50, orders = [0]\<rparr>)],
      orderMap = [1 \<mapsto> 0, 2 \<mapsto> 1],
      trades = [\<lparr>buyOrderId = 2, sellOrderId = 1, trade_price = 100, trade_quantity = 30,
                 trade_timestamp = 7\<rparr>],
      nextOrderId = 3\<rparr>"

text \<open>Two versions of an order that differ in the filled quantity and the status only.\<close>

definition same_static :: "Order \<Rightarrow> Order \<Rightarrow> bool" where
  "same_static a b \<longleftrightarrow>
     orderId b = orderId a \<and> timestamp b = timestamp a \<and> price b = price a \<and>
     quantity b = quantity a \<and> side b = side a \<and> otype b = otype a \<and>
     (status b = status a \<or> status b = FILLED \<or> status b = PARTIAL_FILL)"

text \<open>What \<^verbatim>\<open>matchOrders\<close> may have done between \<open>(lvl0, s0)\<close> and \<open>(lvl, s)\<close>.\<close>

definition match_frame :: "handle \<Rightarrow> PriceLevel \<Rightarrow> OrderBook \<Rightarrow> PriceLevel \<Rightarrow> OrderBook \<Rightarrow> bool" where
  "match_frame inc lvl0 s0 lvl s \<longleftrightarrow>
     length (store s) = length (store s0) \<and>
     bids s = bids s0 \<and> asks s = asks s0 \<and> nextOrderId s = nextOrderId s0 \<and>
     level_price lvl = level_price lvl0 \<and> suffix (orders lvl) (orders lvl0) \<and>
     (\<forall>h < length (store s0). same_static (store s0 ! h) (store s ! h)) \<and>
     (\<forall>h. h \<noteq> inc \<longrightarrow> h \<notin> set (orders lvl0) \<longrightarrow> store s ! h = store s0 ! h) \<and>
     (\<forall>k. orderMap s k = orderMap s0 k \<or>
          (orderMap s k = None \<and> (\<exists>h \<in> set (orders lvl0). orderId (store s0 ! h) = k))) \<and>
     prefix (trades s0) (trades s)"

definition loop_pre :: "OrderSide \<Rightarrow> handle \<Rightarrow> OrderBook \<Rightarrow> bool" where
  "loop_pre sd inc s \<longleftrightarrow> (\<forall>e \<in> set (ladder_of (opposite sd) s). match_pre inc (snd e) s)"

definition loop_exit :: "OrderSide \<Rightarrow> handle \<Rightarrow> OrderBook \<Rightarrow> bool" where
  "loop_exit sd inc s \<longleftrightarrow>
     isFilled (store s ! inc) \<or> ladder_of (opposite sd) s = [] \<or>
     before (opposite sd) (price (store s ! inc))
       (level_price (snd (hd (ladder_of (opposite sd) s))))"

definition loop_measure :: "OrderSide \<Rightarrow> handle \<Rightarrow> OrderBook \<Rightarrow> nat" where
  "loop_measure sd inc s =
     length (ladder_of (opposite sd) s) + (if isFilled (store s ! inc) then 0 else 1)"

text \<open>The handles in the queues of a ladder, best level first and each queue from its
  front.\<close>

definition queued :: "ladder \<Rightarrow> handle list" where
  "queued m = concat (map (orders \<circ> snd) m)"

text \<open>An entry of the ladder of side \<open>sd\<close>: the level's price is its key, its queue is
  not empty, and it holds orders of that side and price.\<close>

definition level_ok :: "OrderSide \<Rightarrow> Order list \<Rightarrow> u32 \<times> PriceLevel \<Rightarrow> bool" where
  "level_ok sd st e \<longleftrightarrow>
     level_price (snd e) = fst e \<and> orders (snd e) \<noteq> [] \<and>
     (\<forall>h \<in> set (orders (snd e)). h < length st \<and> side (st ! h) = sd \<and> price (st ! h) = fst e)"

text \<open>The ladder of side \<open>sd\<close>: keys strictly in the comparator's order, no order queued
  twice, every entry well formed.\<close>

definition ladder_ok :: "OrderSide \<Rightarrow> Order list \<Rightarrow> ladder \<Rightarrow> bool" where
  "ladder_ok sd st m \<longleftrightarrow>
     sorted_wrt (before sd) (map fst m) \<and> distinct (queued m) \<and> (\<forall>e \<in> set m. level_ok sd st e)"

definition uncrossed :: "OrderBook \<Rightarrow> bool" where
  "uncrossed s \<longleftrightarrow> (\<forall>b \<in> set (bids s). \<forall>a \<in> set (asks s). fst b < fst a)"

definition index_ok :: "OrderBook \<Rightarrow> bool" where
  "index_ok s \<longleftrightarrow>
     (\<forall>k h. orderMap s k = Some h \<longrightarrow> h < length (store s) \<and> orderId (store s ! h) = k)"

definition ids_ok :: "OrderBook \<Rightarrow> bool" where
  "ids_ok s \<longleftrightarrow>
     nextOrderId s = of_nat (length (store s)) + 1 \<and>
     (\<forall>h < length (store s). orderId (store s ! h) = of_nat h + 1)"

definition no_rejected :: "OrderBook \<Rightarrow> bool" where
  "no_rejected s \<longleftrightarrow> (\<forall>h < length (store s). status (store s ! h) \<noteq> REJECTED)"

text \<open>The invariant of the book between two operations.\<close>

definition wf :: "OrderBook \<Rightarrow> bool" where
  "wf s \<longleftrightarrow>
     (\<forall>sd. ladder_ok sd (store s) (ladder_of sd s)) \<and> uncrossed s \<and> index_ok s \<and>
     ids_ok s \<and> no_rejected s"

text \<open>The invariant inside \<^verbatim>\<open>addOrder\<close>, while the new order \<open>inc\<close> of side \<open>sd\<close> is
  matched and not yet in a queue.\<close>

definition wf_inc :: "OrderSide \<Rightarrow> handle \<Rightarrow> OrderBook \<Rightarrow> bool" where
  "wf_inc sd inc s \<longleftrightarrow>
     wf s \<and> inc < length (store s) \<and> side (store s ! inc) = sd \<and>
     (\<forall>sd'. inc \<notin> set (queued (ladder_of sd' s)))"

text \<open>The state in which \<^verbatim>\<open>addOrder\<close> calls \<^verbatim>\<open>addBuyOrder\<close> or \<^verbatim>\<open>addSellOrder\<close>: the
  new order is in the store and in the index.\<close>

definition add_start :: "OrderBook \<Rightarrow> u32 \<Rightarrow> u32 \<Rightarrow> OrderSide \<Rightarrow> u64 \<Rightarrow> OrderBook" where
  "add_start s p qty sd ts =
     s\<lparr>store := store s @ [mkOrder (nextOrderId s) ts p qty sd],
       nextOrderId := nextOrderId s + 1,
       orderMap := (orderMap s)(nextOrderId s \<mapsto> length (store s))\<rparr>"

text \<open>The end of \<^verbatim>\<open>addBuyOrder\<close> and \<^verbatim>\<open>addSellOrder\<close>, after the loop.\<close>

definition add_finish :: "OrderSide \<Rightarrow> handle \<Rightarrow> OrderBook \<Rightarrow> OrderBook" where
  "add_finish sd inc s =
     (if \<not> isFilled (store s ! inc)
      then ladder_map sd (ladder_addOrder (before sd) (store s) inc) s else s)"

text \<open>What \<^verbatim>\<open>OrderBook::removeOrder\<close> does to the ladder of the order's side.\<close>

definition ladder_remove :: "Order list \<Rightarrow> handle \<Rightarrow> u32 \<Rightarrow> ladder \<Rightarrow> ladder" where
  "ladder_remove st h p m =
     (case ladder_find m p of
        None \<Rightarrow> m
      | Some lvl \<Rightarrow>
          if isEmpty (level_removeOrder st lvl h) then ladder_erase p m
          else ladder_update p (\<lambda>l. level_removeOrder st lvl h) m)"

text \<open>The book of scenario S1: a bid of 100 at 10050 and an ask of 120 at 10055.\<close>

definition book_two_sided :: OrderBook where
  "book_two_sided =
     \<lparr>store = [mkOrder 1 0 10050 100 BUY, mkOrder 2 1 10055 120 SELL],
      bids = [(10050, \<lparr>level_price = 10050, totalQuantity = 100, orders = [0]\<rparr>)],
      asks = [(10055, \<lparr>level_price = 10055, totalQuantity = 120, orders = [1]\<rparr>)],
      orderMap = [1 \<mapsto> 0, 2 \<mapsto> 1],
      trades = [],
      nextOrderId = 3\<rparr>"

text \<open>A modify respects \<open>R\<close> when its target, if it is in the index, has
  \<open>R filled newQuantity\<close>; submits and cancels always do.\<close>

fun op_respects :: "(u32 \<Rightarrow> u32 \<Rightarrow> bool) \<Rightarrow> OrderBook \<Rightarrow> Op \<Rightarrow> bool" where
  "op_respects R s (Modify oid qty) =
     (case orderMap s oid of None \<Rightarrow> True | Some h \<Rightarrow> R (filledQuantity (store s ! h)) qty)"
| "op_respects R s (Submit p qty sd ts) = True"
| "op_respects R s (Cancel oid) = True"

text \<open>Every modify of the sequence respects \<open>R\<close> in the book it is applied to.\<close>

fun modifies_respect :: "(u32 \<Rightarrow> u32 \<Rightarrow> bool) \<Rightarrow> OrderBook \<Rightarrow> Op list \<Rightarrow> bool" where
  "modifies_respect R s [] = True"
| "modifies_respect R s (x # xs) =
     (op_respects R s x \<and>
      (case step s x of None \<Rightarrow> False | Some s' \<Rightarrow> modifies_respect R s' xs))"

text \<open>No order is filled beyond its quantity.\<close>

definition fills_le :: "OrderBook \<Rightarrow> bool" where
  "fills_le s \<longleftrightarrow> (\<forall>h < length (store s). filledQuantity (store s ! h) \<le> quantity (store s ! h))"

text \<open>The book after the three operations of the counterexample to C7.\<close>

definition book_shrunk :: OrderBook where
  "book_shrunk =
     \<lparr>store = [\<lparr>orderId = 1, timestamp = 0, price = 100, quantity = 10, filledQuantity = 30,
                 side = SELL, otype = LIMIT, status = PARTIAL_FILL\<rparr>,
               \<lparr>orderId = 2, timestamp = 7, price = 100, quantity = 30, filledQuantity = 30,
                 side = BUY, otype = LIMIT, status = FILLED\<rparr>],
      bids = [],
      asks = [(100, \<lparr>level_price = 100, totalQuantity = 10, orders = [0]\<rparr>)],
      orderMap = [1 \<mapsto> 0, 2 \<mapsto> 1],
      trades = [\<lparr>buyOrderId = 2, sellOrderId = 1, trade_price = 100, trade_quantity = 30,
                 trade_timestamp = 7\<rparr>],
      nextOrderId = 3\<rparr>"

text \<open>A trade of the log, read against the store: an aggressor \<open>i\<close> and a maker \<open>j\<close>
  allocated before it (so the maker was in the book when the aggressor was submitted), on
  opposite sides; the trade carries the maker's price, the aggressor's timestamp, and the
  id of the buy order as \<^verbatim>\<open>buyOrderId\<close> and of the sell order as \<^verbatim>\<open>sellOrderId\<close>.\<close>

definition trade_between :: "Order list \<Rightarrow> handle \<Rightarrow> handle \<Rightarrow> Trade \<Rightarrow> bool" where
  "trade_between st i j t \<longleftrightarrow>
     j < i \<and> i < length st \<and>
     side (st ! j) = opposite (side (st ! i)) \<and>
     trade_price t = price (st ! j) \<and>
     trade_timestamp t = timestamp (st ! i) \<and>
     buyOrderId t = orderId (st ! (if side (st ! i) = BUY then i else j)) \<and>
     sellOrderId t = orderId (st ! (if side (st ! i) = SELL then i else j))"

definition trade_ok :: "Order list \<Rightarrow> Trade \<Rightarrow> bool" where
  "trade_ok st t \<longleftrightarrow> (\<exists>i j. trade_between st i j t)"

definition trades_ok :: "OrderBook \<Rightarrow> bool" where
  "trades_ok s \<longleftrightarrow> (\<forall>t \<in> set (trades s). trade_ok (store s) t)"

text \<open>The store \<open>st'\<close> holds the orders of \<open>st\<close>, with the same id, timestamp, price
  and side, and maybe more.\<close>

definition store_ext :: "Order list \<Rightarrow> Order list \<Rightarrow> bool" where
  "store_ext st st' \<longleftrightarrow>
     length st \<le> length st' \<and>
     (\<forall>i < length st. orderId (st' ! i) = orderId (st ! i) \<and>
        timestamp (st' ! i) = timestamp (st ! i) \<and> price (st' ! i) = price (st ! i) \<and>
        side (st' ! i) = side (st ! i))"

text \<open>Inside \<^verbatim>\<open>matchOrders\<close>: the trades so far are well formed and the level holds older
  orders of the other side.\<close>

definition match_trades_inv :: "handle \<Rightarrow> PriceLevel \<Rightarrow> OrderBook \<Rightarrow> bool" where
  "match_trades_inv inc lvl s \<longleftrightarrow>
     trades_ok s \<and>
     (\<forall>h \<in> set (orders lvl). h < inc \<and> side (store s ! h) = opposite (side (store s ! inc)))"

text \<open>Inside \<^verbatim>\<open>addOrder\<close>: the trades so far are well formed and every queued order is
  older than the incoming one.\<close>

definition add_trades_inv :: "handle \<Rightarrow> OrderBook \<Rightarrow> bool" where
  "add_trades_inv inc t \<longleftrightarrow>
     trades_ok t \<and> (\<forall>sd. \<forall>h \<in> set (queued (ladder_of sd t)). h < inc)"

text \<open>No queued order is full.\<close>

definition queued_unfilled :: "OrderBook \<Rightarrow> bool" where
  "queued_unfilled s \<longleftrightarrow>
     (\<forall>sd. \<forall>h \<in> set (queued (ladder_of sd s)). \<not> isFilled (store s ! h))"

definition trades_pos :: "OrderBook \<Rightarrow> bool" where
  "trades_pos s \<longleftrightarrow> (\<forall>t \<in> set (trades s). 0 < trade_quantity t)"

definition match_pos_inv :: "PriceLevel \<Rightarrow> OrderBook \<Rightarrow> bool" where
  "match_pos_inv lvl s \<longleftrightarrow>
     trades_pos s \<and> (\<forall>h \<in> set (orders lvl). \<not> isFilled (store s ! h))"

definition add_pos_inv :: "OrderBook \<Rightarrow> bool" where
  "add_pos_inv t \<longleftrightarrow> queued_unfilled t \<and> trades_pos t"

text \<open>The order \<open>h\<close> with id \<open>oid\<close> is in the index with status NEW and in no queue.\<close>

definition idle_new :: "u64 \<Rightarrow> handle \<Rightarrow> OrderBook \<Rightarrow> bool" where
  "idle_new oid h s \<longleftrightarrow>
     orderMap s oid = Some h \<and> h < length (store s) \<and> status (store s ! h) = NEW \<and>
     (\<forall>sd. h \<notin> set (queued (ladder_of sd s)))"

text \<open>A new book after \<^verbatim>\<open>addOrder(100, 0, BUY, 0)\<close>: order 1 is in the index and in no
  ladder.\<close>

definition book_zero :: OrderBook where
  "book_zero =
     \<lparr>store = [mkOrder 1 0 100 0 BUY], bids = [], asks = [], orderMap = [1 \<mapsto> 0],
      trades = [], nextOrderId = 2\<rparr>"

text \<open>\<open>book_zero\<close> after a sell of 5 at 100 and a modify of order 1 to 7.\<close>

definition book_zero_later :: OrderBook where
  "book_zero_later =
     \<lparr>store = [\<lparr>orderId = 1, timestamp = 0, price = 100, quantity = 7, filledQuantity = 0,
                 side = BUY, otype = LIMIT, status = NEW\<rparr>,
               mkOrder 2 3 100 5 SELL],
      bids = [],
      asks = [(100, \<lparr>level_price = 100, totalQuantity = 5, orders = [1]\<rparr>)],
      orderMap = [1 \<mapsto> 0, 2 \<mapsto> 1],
      trades = [], nextOrderId = 3\<rparr>"

text \<open>The counterparty of a trade that was executed for an incoming order of side \<open>sd\<close>.\<close>

definition maker :: "OrderSide \<Rightarrow> Trade \<Rightarrow> u64" where
  "maker sd t = (if sd = BUY then sellOrderId t else buyOrderId t)"

text \<open>While the order \<open>inc\<close> of side \<open>sd\<close> is matched against the queue \<open>Q\<close>: the
  trades added to \<open>T0\<close> have as counterparties, in this order, the orders of a front part
  \<open>done\<close> of \<open>Q\<close>, all of them but the last are full, and as long as \<open>inc\<close> is not full,
  the last is full too and \<open>rest\<close> is what remains of \<open>Q\<close>.\<close>

definition served ::
    "OrderSide \<Rightarrow> handle \<Rightarrow> Order list \<Rightarrow> Trade list \<Rightarrow> handle list \<Rightarrow> handle list \<Rightarrow>
     OrderBook \<Rightarrow> bool" where
  "served sd inc st0 T0 Q rest s \<longleftrightarrow>
     (\<exists>done new. trades s = T0 @ new \<and>
        map (maker sd) new = map (\<lambda>h. orderId (st0 ! h)) done \<and>
        prefix done Q \<and> (\<forall>h \<in> set (butlast done). isFilled (store s ! h)) \<and>
        (\<not> isFilled (store s ! inc) \<longrightarrow>
           Q = done @ rest \<and> (\<forall>h \<in> set done. isFilled (store s ! h))))"

text \<open>Handles are given out in the order of the submits, so \<open>a < b\<close> says that order
  \<open>a\<close> was submitted before order \<open>b\<close>. In a ladder that is \<open>fifo\<close> every queue holds its
  orders in the order of their submission.\<close>

definition fifo_ladder :: "ladder \<Rightarrow> bool" where
  "fifo_ladder m \<longleftrightarrow> (\<forall>e \<in> set m. sorted_wrt (<) (orders (snd e)))"

definition fifo :: "OrderBook \<Rightarrow> bool" where
  "fifo s \<longleftrightarrow> (\<forall>sd. fifo_ladder (ladder_of sd s))"

text \<open>Order \<open>a\<close> has priority over order \<open>b\<close> on side \<open>sd\<close>: a better price (higher for
  bids, lower for asks), or the same price and an earlier submission.\<close>

definition priority :: "OrderSide \<Rightarrow> Order list \<Rightarrow> handle \<Rightarrow> handle \<Rightarrow> bool" where
  "priority sd st a b \<longleftrightarrow>
     before sd (price (st ! a)) (price (st ! b)) \<or> (price (st ! a) = price (st ! b) \<and> a < b)"

text \<open>Three asks on a new book: 10 at 10101 (id 1), then 10 at 10100 (id 2), then 10 at
  10100 (id 3).\<close>

definition book_queue :: OrderBook where
  "book_queue =
     \<lparr>store = [mkOrder 1 0 10101 10 SELL, mkOrder 2 1 10100 10 SELL, mkOrder 3 2 10100 10 SELL],
      bids = [],
      asks = [(10100, \<lparr>level_price = 10100, totalQuantity = 20, orders = [1, 2]\<rparr>),
              (10101, \<lparr>level_price = 10101, totalQuantity = 10, orders = [0]\<rparr>)],
      orderMap = [1 \<mapsto> 0, 2 \<mapsto> 1, 3 \<mapsto> 2],
      trades = [],
      nextOrderId = 4\<rparr>"

section \<open>Basic facts\<close>

lemma ladder_of_ladder_map [simp]:
  "ladder_of sd (ladder_map sd' f s) = (if sd = sd' then f (ladder_of sd s) else ladder_of sd s)"
  by (cases sd; cases sd') (simp_all add: ladder_of_def ladder_map_def)

lemma ladder_map_fields [simp]:
  "store (ladder_map sd f s) = store s"
  "orderMap (ladder_map sd f s) = orderMap s"
  "trades (ladder_map sd f s) = trades s"
  "nextOrderId (ladder_map sd f s) = nextOrderId s"
  by (simp_all add: ladder_map_def)

lemma ladder_of_fields [simp]:
  "ladder_of sd (s\<lparr>store := st\<rparr>) = ladder_of sd s"
  "ladder_of sd (s\<lparr>orderMap := om\<rparr>) = ladder_of sd s"
  "ladder_of sd (s\<lparr>trades := tr\<rparr>) = ladder_of sd s"
  "ladder_of sd (s\<lparr>nextOrderId := n\<rparr>) = ladder_of sd s"
  by (simp_all add: ladder_of_def)

lemma opposite_neq [simp]: "opposite sd \<noteq> sd" "sd \<noteq> opposite sd"
  by (cases sd; simp)+

lemma opposite_opposite [simp]: "opposite (opposite sd) = sd"
  by (cases sd) simp_all

lemma neq_opposite: "sd' \<noteq> sd \<longleftrightarrow> sd' = opposite sd"
  by (cases sd; cases sd') simp_all

lemma fill_static [simp]:
  "orderId (fill ord q) = orderId ord"
  "timestamp (fill ord q) = timestamp ord"
  "price (fill ord q) = price ord"
  "quantity (fill ord q) = quantity ord"
  "side (fill ord q) = side ord"
  "otype (fill ord q) = otype ord"
  "filledQuantity (fill ord q) = filledQuantity ord + q"
  by (simp_all add: fill_def isFilled_def Let_def)

lemma fill_status: "status (fill ord q) = (if isFilled (fill ord q) then FILLED else PARTIAL_FILL)"
  by (simp add: fill_def isFilled_def Let_def)

lemma isFilled_fill_remaining [simp]: "isFilled (fill ord (getRemainingQuantity ord))"
  by (simp add: isFilled_def getRemainingQuantity_def)

lemma matchOrders_body_eq:
  assumes "match_pre inc lvl s" "matchOrders_cond inc lvl s"
  shows "matchOrders_body inc lvl s =
     (let r = hd (orders lvl); q = match_qty inc lvl s;
          I = fill (store s ! inc) q; R = fill (store s ! r) q;
          st = (store s)[inc := I, r := R];
          tr = \<lparr>buyOrderId = (if side I = BUY then orderId I else orderId R),
                sellOrderId = (if side I = SELL then orderId I else orderId R),
                trade_price = price R, trade_quantity = q, trade_timestamp = timestamp I\<rparr>;
          s1 = s\<lparr>store := st, trades := trades s @ [tr]\<rparr>
      in if isFilled R
         then (lvl\<lparr>totalQuantity := totalQuantity lvl - getRemainingQuantity R, orders := tl (orders lvl)\<rparr>,
               s1\<lparr>orderMap := (orderMap s)(orderId R := None)\<rparr>)
         else (lvl, s1))"
proof -
  from assms obtain r rest where q: "orders lvl = r # rest"
    by (cases "orders lvl") (auto simp: matchOrders_cond_def isEmpty_def)
  with assms have r: "r \<noteq> inc" "r < length (store s)" "inc < length (store s)" "r \<notin> set rest"
    by (auto simp: match_pre_def)
  show ?thesis
    using r by (simp add: matchOrders_body_def match_qty_def q Let_def level_removeOrder_def)
qed

lemma match_qty_cases:
  "match_qty inc lvl s = getRemainingQuantity (store s ! inc) \<or>
   match_qty inc lvl s = getRemainingQuantity (store s ! hd (orders lvl))"
  by (simp add: match_qty_def min_def)

lemma body_store:
  assumes "match_pre inc lvl s" "matchOrders_cond inc lvl s"
  shows "store (snd (matchOrders_body inc lvl s)) =
     (store s)[inc := fill (store s ! inc) (match_qty inc lvl s),
               hd (orders lvl) := fill (store s ! hd (orders lvl)) (match_qty inc lvl s)]"
  by (simp add: matchOrders_body_eq[OF assms] Let_def)

lemma body_ladders:
  assumes "match_pre inc lvl s" "matchOrders_cond inc lvl s"
  shows "bids (snd (matchOrders_body inc lvl s)) = bids s"
    and "asks (snd (matchOrders_body inc lvl s)) = asks s"
    and "nextOrderId (snd (matchOrders_body inc lvl s)) = nextOrderId s"
    and "ladder_of sd (snd (matchOrders_body inc lvl s)) = ladder_of sd s"
  by (simp_all add: matchOrders_body_eq[OF assms] Let_def ladder_of_def)

lemma body_level:
  assumes "match_pre inc lvl s" "matchOrders_cond inc lvl s"
  shows "level_price (fst (matchOrders_body inc lvl s)) = level_price lvl"
    and "orders (fst (matchOrders_body inc lvl s)) =
           (if isFilled (fill (store s ! hd (orders lvl)) (match_qty inc lvl s))
            then tl (orders lvl) else orders lvl)"
  by (simp_all add: matchOrders_body_eq[OF assms] Let_def)

lemma body_orderMap:
  assumes "match_pre inc lvl s" "matchOrders_cond inc lvl s"
  shows "orderMap (snd (matchOrders_body inc lvl s)) =
           (if isFilled (fill (store s ! hd (orders lvl)) (match_qty inc lvl s))
            then (orderMap s)(orderId (store s ! hd (orders lvl)) := None) else orderMap s)"
  by (simp add: matchOrders_body_eq[OF assms] Let_def)

lemma body_trades:
  assumes "match_pre inc lvl s" "matchOrders_cond inc lvl s"
  shows "trades (snd (matchOrders_body inc lvl s)) =
           trades s @
           [\<lparr>buyOrderId = (if side (store s ! inc) = BUY then orderId (store s ! inc)
                           else orderId (store s ! hd (orders lvl))),
             sellOrderId = (if side (store s ! inc) = SELL then orderId (store s ! inc)
                            else orderId (store s ! hd (orders lvl))),
             trade_price = price (store s ! hd (orders lvl)),
             trade_quantity = match_qty inc lvl s,
             trade_timestamp = timestamp (store s ! inc)\<rparr>]"
  by (simp add: matchOrders_body_eq[OF assms] Let_def)

lemma cond_hd:
  assumes "match_pre inc lvl s" "matchOrders_cond inc lvl s"
  shows "hd (orders lvl) \<in> set (orders lvl)" "hd (orders lvl) \<noteq> inc"
        "hd (orders lvl) < length (store s)" "inc < length (store s)"
        "hd (orders lvl) \<notin> set (tl (orders lvl))" "\<not> isFilled (store s ! inc)"
        "orders lvl \<noteq> []"
  using assms by (cases "orders lvl"; auto simp: match_pre_def matchOrders_cond_def isEmpty_def)+

lemma body_inc:
  assumes "match_pre inc lvl s" "matchOrders_cond inc lvl s"
  shows "store (snd (matchOrders_body inc lvl s)) ! inc = fill (store s ! inc) (match_qty inc lvl s)"
  using cond_hd[OF assms] by (simp add: body_store[OF assms])

lemma body_resting:
  assumes "match_pre inc lvl s" "matchOrders_cond inc lvl s"
  shows "store (snd (matchOrders_body inc lvl s)) ! hd (orders lvl) =
           fill (store s ! hd (orders lvl)) (match_qty inc lvl s)"
  using cond_hd[OF assms] by (simp add: body_store[OF assms])

lemma body_other:
  assumes "match_pre inc lvl s" "matchOrders_cond inc lvl s" "h \<noteq> inc" "h \<noteq> hd (orders lvl)"
  shows "store (snd (matchOrders_body inc lvl s)) ! h = store s ! h"
  using assms(3,4) by (simp add: body_store[OF assms(1,2)])

lemma body_length:
  assumes "match_pre inc lvl s" "matchOrders_cond inc lvl s"
  shows "length (store (snd (matchOrders_body inc lvl s))) = length (store s)"
  by (simp add: body_store[OF assms])

lemma body_progress:
  assumes "match_pre inc lvl s" "matchOrders_cond inc lvl s"
    and "\<not> isFilled (fill (store s ! hd (orders lvl)) (match_qty inc lvl s))"
  shows "isFilled (store (snd (matchOrders_body inc lvl s)) ! inc)"
proof -
  have "match_qty inc lvl s \<noteq> getRemainingQuantity (store s ! hd (orders lvl))"
    using assms(3) isFilled_fill_remaining by metis
  then have "match_qty inc lvl s = getRemainingQuantity (store s ! inc)"
    using match_qty_cases by blast
  then show ?thesis by (simp add: body_inc[OF assms(1,2)])
qed

lemma body_pre:
  assumes "match_pre inc lvl s" "matchOrders_cond inc lvl s"
  shows "match_pre inc (fst (matchOrders_body inc lvl s)) (snd (matchOrders_body inc lvl s))"
  using assms(1) cond_hd[OF assms]
  by (auto simp: match_pre_def body_length[OF assms] body_level[OF assms] distinct_tl
           dest: list.set_sel(2))

lemma body_measure:
  assumes "match_pre inc lvl s" "matchOrders_cond inc lvl s"
  shows "match_measure inc (fst (matchOrders_body inc lvl s)) (snd (matchOrders_body inc lvl s))
           < match_measure inc lvl s"
proof (cases "isFilled (fill (store s ! hd (orders lvl)) (match_qty inc lvl s))")
  case True
  have "length (tl (orders lvl)) < length (orders lvl)"
    using cond_hd(7)[OF assms] by (cases "orders lvl") simp_all
  with True cond_hd(6)[OF assms] show ?thesis
    by (simp add: match_measure_def body_level[OF assms])
next
  case False
  then show ?thesis using cond_hd[OF assms] body_progress[OF assms False]
    by (simp add: match_measure_def body_level[OF assms])
qed

lemma matchOrders_rule:
  assumes "match_pre inc lvl s" and "I lvl s"
    and step: "\<And>lvl s. match_pre inc lvl s \<Longrightarrow> I lvl s \<Longrightarrow> matchOrders_cond inc lvl s \<Longrightarrow>
                 I (fst (matchOrders_body inc lvl s)) (snd (matchOrders_body inc lvl s))"
  shows "\<exists>lvl' s'. matchOrders inc lvl s = Some (lvl', s') \<and> I lvl' s' \<and>
           match_pre inc lvl' s' \<and> \<not> matchOrders_cond inc lvl' s'"
  using assms(1,2)
proof (induction "match_measure inc lvl s" arbitrary: lvl s rule: less_induct)
  case less
  show ?case
  proof (cases "matchOrders_cond inc lvl s")
    case False
    have "matchOrders inc lvl s = Some (lvl, s)"
      by (subst matchOrders.simps) (simp add: False)
    with False less.prems show ?thesis by simp
  next
    case True
    let ?l = "fst (matchOrders_body inc lvl s)" and ?s = "snd (matchOrders_body inc lvl s)"
    have "\<exists>lvl' s'. matchOrders inc ?l ?s = Some (lvl', s') \<and> I lvl' s' \<and>
           match_pre inc lvl' s' \<and> \<not> matchOrders_cond inc lvl' s'"
      using less.hyps[OF body_measure[OF less.prems(1) True] body_pre[OF less.prems(1) True]
                         step[OF less.prems(1,2) True]] .
    moreover have "matchOrders inc lvl s = matchOrders inc ?l ?s"
      by (subst matchOrders.simps) (simp add: True case_prod_beta)
    ultimately show ?thesis by simp
  qed
qed

subsection \<open>Running the model on concrete books\<close>

lemmas eval_defs = emptyBook_def addOrder_def addBuyOrder_def addSellOrder_def addSideOrder_def
     addSideOrder_loop.simps matchOrders.simps matchOrders_cond_def matchOrders_body_def
     mkOrder_def isFilled_def fill_def getRemainingQuantity_def ladder_of_def ladder_map_def
     ladder_addOrder_def ladder_find_def level_addOrder_def level_removeOrder_def mkPriceLevel_def
     isEmpty_def after_match_def Let_def cancelOrder_def modifyOrder_def removeOrder_def

lemma run_book_partial:
  "run emptyBook [Submit 100 50 SELL 0, Submit 100 30 BUY 7] = Some book_partial"
  by (simp add: eval_defs book_partial_def)

subsection \<open>Ladders\<close>

lemma ladder_update_keep:
  assumes "\<And>l. g (f l) = g l"
  shows "map (\<lambda>(k, l). (k, g l)) (ladder_update p f m) = map (\<lambda>(k, l). (k, g l)) m"
  by (induction m) (auto simp: assms)

lemma ladder_update_keys [simp]: "map fst (ladder_update p f m) = map fst m"
  by (induction m) auto

lemma ladder_update_snd_keep:
  assumes "\<And>l. g (f l) = g l"
  shows "map (g \<circ> snd) (ladder_update p f m) = map (g \<circ> snd) m"
  by (induction m) (auto simp: assms)

lemma run_book_two_sided:
  "run emptyBook [Submit 10050 100 BUY 0, Submit 10055 120 SELL 1] = Some book_two_sided"
  by (simp add: eval_defs book_two_sided_def)

section \<open>The two loops\<close>

lemma same_static_refl [simp]: "same_static a a"
  by (simp add: same_static_def)

lemma same_static_trans: "same_static a b \<Longrightarrow> same_static b c \<Longrightarrow> same_static a c"
  by (auto simp: same_static_def)

lemma same_static_fill [simp]: "same_static a (fill a q)"
  by (simp add: same_static_def fill_status)

lemma match_frame_refl: "match_frame inc lvl s lvl s"
  by (simp add: match_frame_def)

lemma match_frame_body:
  assumes "match_pre inc lvl s" "matchOrders_cond inc lvl s"
  shows "match_frame inc lvl s (fst (matchOrders_body inc lvl s)) (snd (matchOrders_body inc lvl s))"
proof -
  note h = cond_hd[OF assms]
  have "\<forall>h < length (store s). same_static (store s ! h) (store (snd (matchOrders_body inc lvl s)) ! h)"
    using h by (auto simp: body_store[OF assms] nth_list_update)
  moreover have "suffix (orders (fst (matchOrders_body inc lvl s))) (orders lvl)"
    by (simp add: body_level[OF assms] suffix_tl)
  moreover have "\<forall>k. orderMap (snd (matchOrders_body inc lvl s)) k = orderMap s k \<or>
          (orderMap (snd (matchOrders_body inc lvl s)) k = None \<and>
           (\<exists>h \<in> set (orders lvl). orderId (store s ! h) = k))"
    using h(1) by (auto simp: body_orderMap[OF assms])
  moreover have "\<forall>h. h \<noteq> inc \<longrightarrow> h \<notin> set (orders lvl) \<longrightarrow>
      store (snd (matchOrders_body inc lvl s)) ! h = store s ! h"
  proof (intro allI impI)
    fix h' assume "h' \<noteq> inc" "h' \<notin> set (orders lvl)"
    with h(1) have "h' \<noteq> hd (orders lvl)" by auto
    with \<open>h' \<noteq> inc\<close> show "store (snd (matchOrders_body inc lvl s)) ! h' = store s ! h'"
      by (rule body_other[OF assms])
  qed
  ultimately show ?thesis
    by (simp add: match_frame_def body_length[OF assms] body_ladders[OF assms]
        body_level[OF assms] body_trades[OF assms])
qed

lemma match_frame_trans:
  assumes "match_frame inc l0 s0 l1 s1" "match_frame inc l1 s1 l2 s2"
    and valid: "\<forall>h \<in> set (orders l0). h < length (store s0)"
  shows "match_frame inc l0 s0 l2 s2"
proof -
  have len: "length (store s1) = length (store s0)" "length (store s2) = length (store s1)"
    using assms by (simp_all add: match_frame_def)
  have suf: "suffix (orders l1) (orders l0)" "suffix (orders l2) (orders l1)"
    using assms by (simp_all add: match_frame_def)
  then have sub: "set (orders l1) \<subseteq> set (orders l0)"
    by (simp add: set_mono_suffix)
  have st: "\<forall>h < length (store s0). same_static (store s0 ! h) (store s2 ! h)"
    using assms len by (auto simp: match_frame_def intro: same_static_trans)
  have oth: "\<forall>h. h \<noteq> inc \<longrightarrow> h \<notin> set (orders l0) \<longrightarrow> store s2 ! h = store s0 ! h"
    using assms sub by (auto simp: match_frame_def)
  have ids: "\<forall>h \<in> set (orders l1). h \<in> set (orders l0) \<and> orderId (store s1 ! h) = orderId (store s0 ! h)"
    using assms(1) valid sub by (auto simp: match_frame_def same_static_def)
  have m1: "\<forall>k. orderMap s1 k = orderMap s0 k \<or>
          (orderMap s1 k = None \<and> (\<exists>h \<in> set (orders l0). orderId (store s0 ! h) = k))"
    using assms(1) by (simp add: match_frame_def)
  have m2: "\<forall>k. orderMap s2 k = orderMap s1 k \<or>
          (orderMap s2 k = None \<and> (\<exists>h \<in> set (orders l1). orderId (store s1 ! h) = k))"
    using assms(2) by (simp add: match_frame_def)
  show ?thesis
    unfolding match_frame_def
  proof (intro conjI)
    show "suffix (orders l2) (orders l0)" using suf by (rule suffix_order.trans[rotated])
    show "prefix (trades s0) (trades s2)"
      using assms by (auto simp: match_frame_def intro: prefix_order.trans)
    show "\<forall>k. orderMap s2 k = orderMap s0 k \<or>
          (orderMap s2 k = None \<and> (\<exists>h \<in> set (orders l0). orderId (store s0 ! h) = k))"
      using m1 m2 ids by metis
  qed (use assms len st oth in \<open>simp_all add: match_frame_def\<close>)
qed

lemma matchOrders_rule2:
  assumes pre: "match_pre inc lvl s" and I0: "I lvl s"
    and step: "\<And>l1 s1. match_pre inc l1 s1 \<Longrightarrow> match_frame inc lvl s l1 s1 \<Longrightarrow> I l1 s1 \<Longrightarrow>
                 matchOrders_cond inc l1 s1 \<Longrightarrow>
                 I (fst (matchOrders_body inc l1 s1)) (snd (matchOrders_body inc l1 s1))"
  shows "\<exists>lvl' s'. matchOrders inc lvl s = Some (lvl', s') \<and> I lvl' s' \<and>
           match_frame inc lvl s lvl' s' \<and> match_pre inc lvl' s' \<and>
           \<not> matchOrders_cond inc lvl' s'"
proof -
  have valid: "\<forall>h \<in> set (orders lvl). h < length (store s)"
    using pre by (simp add: match_pre_def)
  have "\<exists>lvl' s'. matchOrders inc lvl s = Some (lvl', s') \<and>
          (match_frame inc lvl s lvl' s' \<and> I lvl' s') \<and>
          match_pre inc lvl' s' \<and> \<not> matchOrders_cond inc lvl' s'"
  proof (rule matchOrders_rule[OF pre])
    show "match_frame inc lvl s lvl s \<and> I lvl s"
      using I0 by (simp add: match_frame_refl)
  next
    fix l1 s1
    assume a: "match_pre inc l1 s1" "match_frame inc lvl s l1 s1 \<and> I l1 s1"
      "matchOrders_cond inc l1 s1"
    have "match_frame inc lvl s (fst (matchOrders_body inc l1 s1)) (snd (matchOrders_body inc l1 s1))"
      using a(2) match_frame_body[OF a(1,3)] valid by (blast intro: match_frame_trans)
    moreover have "I (fst (matchOrders_body inc l1 s1)) (snd (matchOrders_body inc l1 s1))"
      using step a by blast
    ultimately show "match_frame inc lvl s (fst (matchOrders_body inc l1 s1))
        (snd (matchOrders_body inc l1 s1)) \<and>
        I (fst (matchOrders_body inc l1 s1)) (snd (matchOrders_body inc l1 s1))" ..
  qed
  then show ?thesis by blast
qed

lemma matchOrders_frame:
  assumes "match_pre inc lvl s"
  shows "\<exists>lvl' s'. matchOrders inc lvl s = Some (lvl', s') \<and>
           match_frame inc lvl s lvl' s' \<and> match_pre inc lvl' s' \<and>
           \<not> matchOrders_cond inc lvl' s'"
  using matchOrders_rule2[OF assms, of "\<lambda>_ _. True"] by simp

lemma match_pre_length:
  "match_pre inc l s \<Longrightarrow> length (store s') = length (store s) \<Longrightarrow> match_pre inc l s'"
  by (simp add: match_pre_def)

lemma match_frame_ladder_of:
  "match_frame inc lvl s lvl' s' \<Longrightarrow> ladder_of sd s' = ladder_of sd s"
  by (simp add: match_frame_def ladder_of_def)

lemma set_after_match:
  "e \<in> set (after_match lvl' m) \<Longrightarrow> m \<noteq> [] \<Longrightarrow> snd e = lvl' \<or> e \<in> set (tl m)"
  by (auto simp: after_match_def split: if_splits)

lemma addSideOrder_loop_rule:
  assumes "loop_pre sd inc s" and "J s"
    and step: "\<And>s lvl' s'. J s \<Longrightarrow> loop_pre sd inc s \<Longrightarrow> \<not> loop_exit sd inc s \<Longrightarrow>
        matchOrders inc (snd (hd (ladder_of (opposite sd) s))) s = Some (lvl', s') \<Longrightarrow>
        match_frame inc (snd (hd (ladder_of (opposite sd) s))) s lvl' s' \<Longrightarrow>
        isFilled (store s' ! inc) \<or> isEmpty lvl' \<Longrightarrow>
        J (ladder_map (opposite sd) (after_match lvl') s')"
  shows "\<exists>s'. addSideOrder_loop sd inc s = Some s' \<and> J s' \<and> loop_pre sd inc s' \<and>
           loop_exit sd inc s'"
  using assms(1,2)
proof (induction "loop_measure sd inc s" arbitrary: s rule: less_induct)
  case less
  let ?m = "ladder_of (opposite sd) s"
  show ?case
  proof (cases "loop_exit sd inc s")
    case True
    then have "addSideOrder_loop sd inc s = Some s"
      by (subst addSideOrder_loop.simps) (auto simp: loop_exit_def Let_def)
    with True less.prems show ?thesis by simp
  next
    case False
    then have ne: "?m \<noteq> []" and nf: "\<not> isFilled (store s ! inc)"
      and cross: "\<not> before (opposite sd) (price (store s ! inc)) (level_price (snd (hd ?m)))"
      by (simp_all add: loop_exit_def)
    have "match_pre inc (snd (hd ?m)) s"
      using less.prems(1) ne by (simp add: loop_pre_def)
    from matchOrders_frame[OF this] obtain lvl' s' where
      m: "matchOrders inc (snd (hd ?m)) s = Some (lvl', s')"
      and fr: "match_frame inc (snd (hd ?m)) s lvl' s'"
      and pre': "match_pre inc lvl' s'"
      and ex: "\<not> matchOrders_cond inc lvl' s'"
      by blast
    let ?s = "ladder_map (opposite sd) (after_match lvl') s'"
    have ex': "isFilled (store s' ! inc) \<or> isEmpty lvl'"
      using ex by (auto simp: matchOrders_cond_def)
    have J: "J ?s" using step[OF less.prems(2,1) False m fr ex'] .
    have len: "length (store s') = length (store s)"
      using fr by (simp add: match_frame_def)
    have lad: "ladder_of (opposite sd) ?s = after_match lvl' ?m"
      by (simp add: match_frame_ladder_of[OF fr])
    have lp: "loop_pre sd inc ?s"
      unfolding loop_pre_def lad
    proof
      fix e assume "e \<in> set (after_match lvl' ?m)"
      then have "snd e = lvl' \<or> e \<in> set (tl ?m)" using ne by (rule set_after_match)
      then show "match_pre inc (snd e) ?s"
      proof
        assume "snd e = lvl'" with pre' show ?thesis by (simp add: match_pre_def)
      next
        assume "e \<in> set (tl ?m)"
        then have "e \<in> set ?m" using ne by (auto dest: list.set_sel(2))
        with less.prems(1) have "match_pre inc (snd e) s" by (simp add: loop_pre_def)
        then show ?thesis using len by (simp add: match_pre_def)
      qed
    qed
    have dec: "loop_measure sd inc ?s < loop_measure sd inc s"
      using ex' nf ne
      by (cases ?m) (auto simp: loop_measure_def match_frame_ladder_of[OF fr] after_match_def)
    from less.hyps[OF dec lp J] obtain s2 where
      "addSideOrder_loop sd inc ?s = Some s2" "J s2" "loop_pre sd inc s2" "loop_exit sd inc s2"
      by blast
    moreover have "addSideOrder_loop sd inc s = addSideOrder_loop sd inc ?s"
      using ne nf cross m by (subst addSideOrder_loop.simps) (simp add: Let_def)
    ultimately show ?thesis by simp
  qed
qed

section \<open>The invariant of the book\<close>

lemma uncrossed_sd:
  "uncrossed s \<longleftrightarrow>
     (\<forall>e \<in> set (ladder_of sd s). \<forall>e' \<in> set (ladder_of (opposite sd) s).
        before (opposite sd) (fst e) (fst e'))"
  by (cases sd) (auto simp: uncrossed_def ladder_of_def)

lemma queued_Nil [simp]: "queued [] = []"
  by (simp add: queued_def)

lemma queued_Cons [simp]: "queued (e # m) = orders (snd e) @ queued m"
  by (simp add: queued_def)

lemma set_queued: "set (queued m) = (\<Union>e \<in> set m. set (orders (snd e)))"
  by (auto simp: queued_def)

lemma level_ok_store:
  assumes "level_ok sd st e" "length st \<le> length st'"
    and "\<forall>h < length st. side (st' ! h) = side (st ! h) \<and> price (st' ! h) = price (st ! h)"
  shows "level_ok sd st' e"
  using assms by (auto simp: level_ok_def)

lemma ladder_ok_store:
  assumes "ladder_ok sd st m" "length st \<le> length st'"
    and "\<forall>h < length st. side (st' ! h) = side (st ! h) \<and> price (st' ! h) = price (st ! h)"
  shows "ladder_ok sd st' m"
  using assms by (auto simp: ladder_ok_def intro: level_ok_store)

lemma ladder_ok_tl: "ladder_ok sd st m \<Longrightarrow> ladder_ok sd st (tl m)"
  by (cases m) (auto simp: ladder_ok_def)

lemma ladder_ok_after_match:
  assumes ok: "ladder_ok sd st m" and ne: "m \<noteq> []"
    and lp: "level_price lvl' = level_price (snd (hd m))"
    and suf: "suffix (orders lvl') (orders (snd (hd m)))"
  shows "ladder_ok sd st (after_match lvl' m)"
proof (cases "isEmpty lvl'")
  case True
  then show ?thesis using ok by (simp add: after_match_def ladder_ok_tl)
next
  case False
  obtain k l rest where m: "m = (k, l) # rest" using ne by (cases m) auto
  from suf obtain pre where pre: "orders l = pre @ orders lvl'"
    by (auto simp: m suffix_def)
  have "level_ok sd st (k, lvl')"
    using ok lp False by (auto simp: m level_ok_def ladder_ok_def isEmpty_def pre)
  moreover have "distinct (orders lvl' @ queued rest)"
    using ok by (auto simp: m ladder_ok_def pre)
  ultimately show ?thesis
    using ok False by (simp add: after_match_def m ladder_ok_def)
qed

lemma set_after_match_keys:
  "e \<in> set (after_match lvl' m) \<Longrightarrow> m \<noteq> [] \<Longrightarrow> fst e \<in> fst ` set m"
  by (cases m) (auto simp: after_match_def split: if_splits)

lemma set_queued_after_match:
  assumes "suffix (orders lvl') (orders (snd (hd m)))" "m \<noteq> []"
  shows "set (queued (after_match lvl' m)) \<subseteq> set (queued m)"
  using assms by (cases m) (auto simp: after_match_def dest: set_mono_suffix)

lemma frame_static:
  assumes "match_frame inc lvl s lvl' s'" "h < length (store s)"
  shows "side (store s' ! h) = side (store s ! h)" "price (store s' ! h) = price (store s ! h)"
    "orderId (store s' ! h) = orderId (store s ! h)" "timestamp (store s' ! h) = timestamp (store s ! h)"
    "quantity (store s' ! h) = quantity (store s ! h)"
    "status (store s ! h) \<noteq> REJECTED \<Longrightarrow> status (store s' ! h) \<noteq> REJECTED"
  using assms by (auto simp: match_frame_def same_static_def)

lemma frame_length:
  "match_frame inc lvl s lvl' s' \<Longrightarrow> length (store s') = length (store s)"
  by (simp add: match_frame_def)

lemma frame_ladder_ok:
  assumes "match_frame inc lvl s lvl' s'" "ladder_ok sd st m" "st = store s"
  shows "ladder_ok sd (store s') m"
  using assms(2) unfolding assms(3)
  by (rule ladder_ok_store) (simp_all add: frame_length[OF assms(1)] frame_static[OF assms(1)])

lemma frame_index_ok:
  assumes "match_frame inc lvl s lvl' s'" "index_ok s"
  shows "index_ok s'"
  unfolding index_ok_def
proof (intro allI impI)
  fix k h assume "orderMap s' k = Some h"
  with assms(1) have "orderMap s k = Some h"
    by (auto simp: match_frame_def dest!: spec[of _ k])
  with assms(2) have "h < length (store s)" "orderId (store s ! h) = k"
    by (auto simp: index_ok_def)
  then show "h < length (store s') \<and> orderId (store s' ! h) = k"
    by (simp add: frame_length[OF assms(1)] frame_static[OF assms(1)])
qed

lemma frame_ids_ok:
  assumes "match_frame inc lvl s lvl' s'" "ids_ok s"
  shows "ids_ok s'"
  using assms(2) frame_static(3)[OF assms(1)] assms(1)
  by (simp add: ids_ok_def frame_length[OF assms(1)] match_frame_def)

lemma frame_no_rejected:
  assumes "match_frame inc lvl s lvl' s'" "no_rejected s"
  shows "no_rejected s'"
  using assms(2) frame_static(6)[OF assms(1)]
  by (simp add: no_rejected_def frame_length[OF assms(1)])

lemma ladder_map_preds [simp]:
  "index_ok (ladder_map sd f s) = index_ok s"
  "ids_ok (ladder_map sd f s) = ids_ok s"
  "no_rejected (ladder_map sd f s) = no_rejected s"
  by (simp_all add: index_ok_def ids_ok_def no_rejected_def)

lemma wf_inc_loop_pre:
  assumes "wf_inc sd inc s"
  shows "loop_pre sd inc s"
  unfolding loop_pre_def
proof
  fix e assume e: "e \<in> set (ladder_of (opposite sd) s)"
  from assms have ok: "ladder_ok (opposite sd) (store s) (ladder_of (opposite sd) s)"
    and inc: "inc < length (store s)" "inc \<notin> set (queued (ladder_of (opposite sd) s))"
    by (simp_all add: wf_inc_def wf_def)
  from ok e have "level_ok (opposite sd) (store s) e" by (simp add: ladder_ok_def)
  moreover from ok e have "distinct (orders (snd e))"
    by (auto simp: ladder_ok_def queued_def distinct_concat_iff)
  moreover from inc(2) e have "inc \<notin> set (orders (snd e))"
    by (auto simp: set_queued)
  ultimately show "match_pre inc (snd e) s"
    using inc(1) by (simp add: match_pre_def level_ok_def)
qed

lemma wf_inc_step:
  assumes w: "wf_inc sd inc s" and ne: "ladder_of (opposite sd) s \<noteq> []"
    and fr: "match_frame inc (snd (hd (ladder_of (opposite sd) s))) s lvl' s'"
  shows "wf_inc sd inc (ladder_map (opposite sd) (after_match lvl') s')"
proof -
  let ?m = "ladder_of (opposite sd) s"
  let ?s = "ladder_map (opposite sd) (after_match lvl') s'"
  note lad = match_frame_ladder_of[OF fr]
  have lp: "level_price lvl' = level_price (snd (hd ?m))"
    and suf: "suffix (orders lvl') (orders (snd (hd ?m)))"
    using fr by (simp_all add: match_frame_def)
  have wf: "wf s" and inc: "inc < length (store s)" "side (store s ! inc) = sd"
    and fresh: "\<And>sd'. inc \<notin> set (queued (ladder_of sd' s))"
    using w by (simp_all add: wf_inc_def)
  have ok: "\<And>sd'. ladder_ok sd' (store s') (ladder_of sd' s)"
    using wf by (auto simp: wf_def intro: frame_ladder_ok[OF fr])
  have 1: "ladder_ok sd' (store ?s) (ladder_of sd' ?s)" for sd'
    using ok ladder_ok_after_match[OF ok ne lp suf] by (simp add: lad)
  have 2: "uncrossed ?s"
    unfolding uncrossed_sd[of _ "opposite sd"]
  proof (intro ballI)
    fix e e' assume "e \<in> set (ladder_of (opposite sd) ?s)"
      "e' \<in> set (ladder_of (opposite (opposite sd)) ?s)"
    then have "fst e \<in> fst ` set ?m" "e' \<in> set (ladder_of sd s)"
      using set_after_match_keys[OF _ ne] by (simp_all add: lad)
    then show "before (opposite (opposite sd)) (fst e) (fst e')"
      using wf unfolding wf_def uncrossed_sd[of _ "opposite sd"] by auto
  qed
  have 3: "index_ok ?s" "ids_ok ?s" "no_rejected ?s"
    using wf by (simp_all add: wf_def frame_index_ok[OF fr] frame_ids_ok[OF fr] frame_no_rejected[OF fr])
  have 4: "inc \<notin> set (queued (ladder_of sd' ?s))" for sd'
    using fresh[of sd'] set_queued_after_match[OF suf ne] fresh[of "opposite sd"]
    by (auto simp: lad)
  show ?thesis
    unfolding wf_inc_def wf_def
    using 1 2 3 4 inc by (simp add: frame_length[OF fr] frame_static[OF fr])
qed

lemma addSideOrder_loop_rule2:
  assumes "wf_inc sd inc s" and "J s"
    and step: "\<And>s lvl' s'. wf_inc sd inc s \<Longrightarrow> J s \<Longrightarrow> \<not> loop_exit sd inc s \<Longrightarrow>
        matchOrders inc (snd (hd (ladder_of (opposite sd) s))) s = Some (lvl', s') \<Longrightarrow>
        match_frame inc (snd (hd (ladder_of (opposite sd) s))) s lvl' s' \<Longrightarrow>
        isFilled (store s' ! inc) \<or> isEmpty lvl' \<Longrightarrow>
        J (ladder_map (opposite sd) (after_match lvl') s')"
  shows "\<exists>s'. addSideOrder_loop sd inc s = Some s' \<and> wf_inc sd inc s' \<and> J s' \<and>
           loop_exit sd inc s'"
proof -
  have "\<exists>s'. addSideOrder_loop sd inc s = Some s' \<and> (wf_inc sd inc s' \<and> J s') \<and>
          loop_pre sd inc s' \<and> loop_exit sd inc s'"
  proof (rule addSideOrder_loop_rule)
    show "loop_pre sd inc s" using assms(1) by (rule wf_inc_loop_pre)
    show "wf_inc sd inc s \<and> J s" using assms(1,2) ..
  next
    fix s lvl' s'
    assume a: "wf_inc sd inc s \<and> J s" "\<not> loop_exit sd inc s"
      "matchOrders inc (snd (hd (ladder_of (opposite sd) s))) s = Some (lvl', s')"
      "match_frame inc (snd (hd (ladder_of (opposite sd) s))) s lvl' s'"
      "isFilled (store s' ! inc) \<or> isEmpty lvl'"
    from a(2) have ne: "ladder_of (opposite sd) s \<noteq> []" by (simp add: loop_exit_def)
    from a(1) have "wf_inc sd inc (ladder_map (opposite sd) (after_match lvl') s')"
      using wf_inc_step[OF _ ne a(4)] by blast
    moreover have "J (ladder_map (opposite sd) (after_match lvl') s')"
      using step a by blast
    ultimately show "wf_inc sd inc (ladder_map (opposite sd) (after_match lvl') s') \<and>
        J (ladder_map (opposite sd) (after_match lvl') s')" ..
  qed
  then show ?thesis by blast
qed

lemma addSideOrder_loop_wf:
  assumes "wf_inc sd inc s"
  shows "\<exists>s'. addSideOrder_loop sd inc s = Some s' \<and> wf_inc sd inc s' \<and> loop_exit sd inc s'"
  using addSideOrder_loop_rule2[OF assms, of "\<lambda>_. True"] by simp

lemma before_trans: "before sd a b \<Longrightarrow> before sd b c \<Longrightarrow> before sd a c"
  by (cases sd) auto

lemma before_total: "a \<noteq> b \<Longrightarrow> \<not> before sd a b \<Longrightarrow> before sd b a"
  by (cases sd) auto

lemma before_irrefl [simp]: "\<not> before sd a a"
  by (cases sd) auto

lemma before_opposite: "before (opposite sd) a b = before sd b a"
  by (cases sd) auto

lemma ladder_find_None: "ladder_find m p = None \<longleftrightarrow> p \<notin> fst ` set m"
  by (simp add: ladder_find_def map_of_eq_None_iff)

lemma ladder_find_Some: "ladder_find m p = Some l \<Longrightarrow> (p, l) \<in> set m"
  by (simp add: ladder_find_def map_of_SomeD)

lemma set_ladder_insert [simp]: "set (ladder_insert bef p l m) = insert (p, l) (set m)"
proof (induction m)
  case Nil
  then show ?case by simp
next
  case (Cons e m)
  then show ?case by (cases e) (simp add: insert_commute)
qed

lemma sorted_ladder_insert:
  assumes "sorted_wrt (before sd) (map fst m)" "p \<notin> fst ` set m"
  shows "sorted_wrt (before sd) (map fst (ladder_insert (before sd) p l m))"
  using assms
proof (induction m)
  case Nil
  then show ?case by simp
next
  case (Cons e m)
  obtain k l' where e: "e = (k, l')" by (cases e)
  from Cons.prems have srt: "sorted_wrt (before sd) (map fst m)"
    and kall: "\<forall>x \<in> set m. before sd k (fst x)" and pk: "p \<noteq> k" and pm: "p \<notin> fst ` set m"
    by (simp_all add: e)
  show ?case
  proof (cases "before sd p k")
    case True
    then have "\<forall>x \<in> set m. before sd p (fst x)"
      using kall before_trans by blast
    with True srt kall show ?thesis by (simp add: e)
  next
    case False
    with pk have "before sd k p" by (simp add: before_total)
    with False kall Cons.IH[OF srt pm] show ?thesis by (simp add: e)
  qed
qed

lemma set_queued_ladder_insert [simp]:
  "set (queued (ladder_insert bef p l m)) = set (orders l) \<union> set (queued m)"
proof (induction m)
  case Nil
  then show ?case by simp
next
  case (Cons e m)
  then show ?case by (cases e) (simp add: Un_left_commute Un_assoc)
qed

lemma distinct_queued_ladder_insert:
  "distinct (queued (ladder_insert bef p l m)) \<longleftrightarrow>
     distinct (orders l) \<and> distinct (queued m) \<and> set (orders l) \<inter> set (queued m) = {}"
proof (induction m)
  case Nil
  then show ?case by simp
next
  case (Cons e m)
  obtain k l' where e: "e = (k, l')" by (cases e)
  show ?case
  proof (cases "bef p k")
    case True
    then show ?thesis by (simp add: e)
  next
    case False
    then show ?thesis
      using Cons.IH by (simp add: e set_queued_ladder_insert) blast
  qed
qed

lemma set_ladder_update:
  "e \<in> set (ladder_update p f m) \<Longrightarrow> e \<in> set m \<or> (\<exists>l. (p, l) \<in> set m \<and> e = (p, f l))"
proof (induction m)
  case Nil
  then show ?case by simp
next
  case (Cons x m)
  obtain k l' where x: "x = (k, l')" by (cases x)
  show ?case
  proof (cases "k = p")
    case True
    with Cons.prems show ?thesis by (auto simp: x)
  next
    case False
    with Cons show ?thesis by (auto simp: x)
  qed
qed

lemma set_queued_ladder_update_add:
  "set (queued (ladder_update p (\<lambda>l. level_addOrder st l h) m)) \<subseteq> insert h (set (queued m))"
  by (induction m) (auto simp: level_addOrder_def split: if_splits)

lemma set_queued_ladder_update_add_eq:
  "p \<in> fst ` set m \<Longrightarrow>
   set (queued (ladder_update p (\<lambda>l. level_addOrder st l h) m)) = insert h (set (queued m))"
proof (induction m)
  case Nil
  then show ?case by simp
next
  case (Cons e m)
  obtain k l where e: "e = (k, l)" by (cases e)
  show ?case
  proof (cases "k = p")
    case True
    then show ?thesis by (auto simp: e level_addOrder_def)
  next
    case False
    with Cons.prems have "p \<in> fst ` set m" by (auto simp: e)
    from Cons.IH[OF this] False show ?thesis by (auto simp: e)
  qed
qed

lemma distinct_queued_ladder_update_add:
  "distinct (queued m) \<Longrightarrow> h \<notin> set (queued m) \<Longrightarrow>
   distinct (queued (ladder_update p (\<lambda>l. level_addOrder st l h) m))"
proof (induction m)
  case Nil
  then show ?case by simp
next
  case (Cons e m)
  then show ?case
    using set_queued_ladder_update_add[of p st h m]
    by (cases e) (auto simp: level_addOrder_def)
qed

lemma ladder_addOrder_keys:
  "fst ` set (ladder_addOrder bef st h m) = insert (price (st ! h)) (fst ` set m)"
proof (cases "ladder_find m (price (st ! h))")
  case None
  then show ?thesis by (simp add: ladder_addOrder_def Let_def)
next
  case (Some l)
  have "fst ` set (ladder_update (price (st ! h)) (\<lambda>l. level_addOrder st l h) m) = fst ` set m"
    using ladder_update_keys[of "price (st ! h)" _ m] by (metis list.set_map)
  moreover have "price (st ! h) \<in> fst ` set m"
    using ladder_find_Some[OF Some] by force
  ultimately show ?thesis using Some by (auto simp: ladder_addOrder_def Let_def)
qed

lemma ladder_addOrder_queued:
  "set (queued (ladder_addOrder bef st h m)) = insert h (set (queued m))"
proof (cases "ladder_find m (price (st ! h))")
  case None
  then show ?thesis
    by (simp add: ladder_addOrder_def Let_def level_addOrder_def mkPriceLevel_def)
next
  case (Some l)
  have "price (st ! h) \<in> fst ` set m"
    using ladder_find_Some[OF Some] by force
  then show ?thesis
    using Some by (simp add: ladder_addOrder_def Let_def set_queued_ladder_update_add_eq)
qed

lemma ladder_ok_addOrder:
  assumes ok: "ladder_ok sd st m" and h: "h < length st" "side (st ! h) = sd"
    and fresh: "h \<notin> set (queued m)"
  shows "ladder_ok sd st (ladder_addOrder (before sd) st h m)"
proof (cases "ladder_find m (price (st ! h))")
  case None
  let ?l = "level_addOrder st (mkPriceLevel (price (st ! h))) h"
  have "level_ok sd st (price (st ! h), ?l)"
    using h by (simp add: level_ok_def level_addOrder_def mkPriceLevel_def)
  moreover have "sorted_wrt (before sd) (map fst (ladder_insert (before sd) (price (st ! h)) ?l m))"
    using ok None by (intro sorted_ladder_insert) (simp_all add: ladder_ok_def ladder_find_None)
  moreover have "distinct (queued (ladder_insert (before sd) (price (st ! h)) ?l m))"
    using ok fresh
    by (simp add: distinct_queued_ladder_insert ladder_ok_def level_addOrder_def mkPriceLevel_def)
  ultimately show ?thesis
    using None ok by (auto simp: ladder_addOrder_def Let_def ladder_ok_def)
next
  case (Some l)
  let ?m = "ladder_update (price (st ! h)) (\<lambda>l. level_addOrder st l h) m"
  have "level_ok sd st e" if "e \<in> set ?m" for e
  proof -
    from set_ladder_update[OF that] show ?thesis
    proof
      assume "e \<in> set m" with ok show ?thesis by (simp add: ladder_ok_def)
    next
      assume "\<exists>l. (price (st ! h), l) \<in> set m \<and> e = (price (st ! h), level_addOrder st l h)"
      then obtain l' where l': "(price (st ! h), l') \<in> set m"
        "e = (price (st ! h), level_addOrder st l' h)" by blast
      from ok l'(1) have "level_ok sd st (price (st ! h), l')" by (auto simp: ladder_ok_def)
      then show ?thesis using h by (auto simp: l'(2) level_ok_def level_addOrder_def)
    qed
  qed
  moreover have "distinct (queued ?m)"
    using ok fresh by (simp add: distinct_queued_ladder_update_add ladder_ok_def)
  ultimately show ?thesis
    using Some ok by (simp add: ladder_addOrder_def Let_def ladder_ok_def)
qed

lemma addSideOrder_finish:
  "addSideOrder sd inc s = map_option (add_finish sd inc) (addSideOrder_loop sd inc s)"
  by (cases "addSideOrder_loop sd inc s") (simp_all add: addSideOrder_def add_finish_def)

lemma addOrder_start:
  "addOrder s p qty sd ts =
     map_option (\<lambda>s2. (orderId (store s2 ! length (store s)), s2))
       (addSideOrder sd (length (store s)) (add_start s p qty sd ts))"
  by (cases sd; cases "addSideOrder sd (length (store s)) (add_start s p qty sd ts)")
     (simp_all add: addOrder_def add_start_def Let_def mkOrder_def addBuyOrder_def
        addSellOrder_def)

lemma add_start_fields [simp]:
  "store (add_start s p qty sd ts) = store s @ [mkOrder (nextOrderId s) ts p qty sd]"
  "bids (add_start s p qty sd ts) = bids s"
  "asks (add_start s p qty sd ts) = asks s"
  "trades (add_start s p qty sd ts) = trades s"
  "nextOrderId (add_start s p qty sd ts) = nextOrderId s + 1"
  "orderMap (add_start s p qty sd ts) = (orderMap s)(nextOrderId s \<mapsto> length (store s))"
  "ladder_of sd' (add_start s p qty sd ts) = ladder_of sd' s"
  by (simp_all add: add_start_def ladder_of_def)

lemma mkOrder_fields [simp]:
  "orderId (mkOrder oid ts p qty sd) = oid"
  "timestamp (mkOrder oid ts p qty sd) = ts"
  "price (mkOrder oid ts p qty sd) = p"
  "quantity (mkOrder oid ts p qty sd) = qty"
  "filledQuantity (mkOrder oid ts p qty sd) = 0"
  "side (mkOrder oid ts p qty sd) = sd"
  "status (mkOrder oid ts p qty sd) = NEW"
  by (simp_all add: mkOrder_def)

lemma wf_queued_valid:
  assumes "wf s" "h \<in> set (queued (ladder_of sd s))"
  shows "h < length (store s)" "side (store s ! h) = sd"
  using assms by (auto simp: wf_def ladder_ok_def level_ok_def set_queued dest!: spec[of _ sd])

lemma wf_add_start:
  assumes "wf s"
  shows "wf_inc sd (length (store s)) (add_start s p qty sd ts)"
proof -
  let ?s = "add_start s p qty sd ts"
  have 1: "ladder_ok sd' (store ?s) (ladder_of sd' ?s)" for sd'
  proof -
    from assms have "ladder_ok sd' (store s) (ladder_of sd' s)" by (simp add: wf_def)
    then have "ladder_ok sd' (store ?s) (ladder_of sd' s)"
      by (rule ladder_ok_store) (simp_all add: nth_append)
    then show ?thesis by simp
  qed
  have 2: "uncrossed ?s" using assms by (simp add: wf_def uncrossed_def)
  have 3: "index_ok ?s"
    unfolding index_ok_def
  proof (intro allI impI)
    fix k h assume a: "orderMap ?s k = Some h"
    show "h < length (store ?s) \<and> orderId (store ?s ! h) = k"
    proof (cases "k = nextOrderId s")
      case True
      with a have "h = length (store s)" by simp
      with True show ?thesis by simp
    next
      case False
      with a have "orderMap s k = Some h" by simp
      with assms have "h < length (store s)" "orderId (store s ! h) = k"
        by (auto simp: wf_def index_ok_def)
      then show ?thesis by (simp add: nth_append)
    qed
  qed
  have 4: "ids_ok ?s"
    using assms by (auto simp: wf_def ids_ok_def nth_append less_Suc_eq)
  have 5: "no_rejected ?s"
    using assms by (auto simp: wf_def no_rejected_def nth_append less_Suc_eq)
  have 6: "length (store s) \<notin> set (queued (ladder_of sd' ?s))" for sd'
    using wf_queued_valid(1)[OF assms, of "length (store s)" sd'] by auto
  show ?thesis
    unfolding wf_inc_def wf_def using 1 2 3 4 5 6 by simp
qed

lemma sorted_hd_before:
  assumes "sorted_wrt (before sd) (map fst m)" "e \<in> set m"
  shows "fst e = fst (hd m) \<or> before sd (fst (hd m)) (fst e)"
  using assms by (cases m) auto

lemma wf_inc_finish:
  assumes w: "wf_inc sd inc s" and ex: "loop_exit sd inc s"
  shows "wf (add_finish sd inc s)"
proof (cases "isFilled (store s ! inc)")
  case True
  with w show ?thesis by (simp add: add_finish_def wf_inc_def)
next
  case False
  let ?m = "ladder_addOrder (before sd) (store s) inc (ladder_of sd s)"
  let ?s = "ladder_map sd (ladder_addOrder (before sd) (store s) inc) s"
  let ?opp = "ladder_of (opposite sd) s"
  have wf: "wf s" and inc: "inc < length (store s)" "side (store s ! inc) = sd"
    and fresh: "\<And>sd'. inc \<notin> set (queued (ladder_of sd' s))"
    using w by (simp_all add: wf_inc_def)
  have ok: "\<And>sd'. ladder_ok sd' (store s) (ladder_of sd' s)"
    using wf by (simp add: wf_def)
  have 1: "ladder_ok sd' (store ?s) (ladder_of sd' ?s)" for sd'
    using ok ladder_ok_addOrder[OF ok inc fresh] by simp
  have new: "before (opposite sd) (price (store s ! inc)) (fst e')" if e': "e' \<in> set ?opp" for e'
  proof -
    from e' have ne: "?opp \<noteq> []" by auto
    with ex False have b: "before (opposite sd) (price (store s ! inc)) (level_price (snd (hd ?opp)))"
      by (simp add: loop_exit_def)
    have "hd ?opp \<in> set ?opp" using ne by simp
    with ok[of "opposite sd"] have "level_price (snd (hd ?opp)) = fst (hd ?opp)"
      by (simp add: ladder_ok_def level_ok_def)
    with b have b': "before (opposite sd) (price (store s ! inc)) (fst (hd ?opp))" by simp
    from ok[of "opposite sd"] have "sorted_wrt (before (opposite sd)) (map fst ?opp)"
      by (simp add: ladder_ok_def)
    from sorted_hd_before[OF this e'] b' show ?thesis
      by (auto intro: before_trans)
  qed
  have 2: "uncrossed ?s"
    unfolding uncrossed_sd[of _ sd]
  proof (intro ballI)
    fix e e' assume e: "e \<in> set (ladder_of sd ?s)" and e': "e' \<in> set (ladder_of (opposite sd) ?s)"
    from e have "fst e \<in> fst ` set ?m" by simp
    then have "fst e = price (store s ! inc) \<or> fst e \<in> fst ` set (ladder_of sd s)"
      by (simp add: ladder_addOrder_keys)
    then show "before (opposite sd) (fst e) (fst e')"
    proof
      assume "fst e = price (store s ! inc)"
      with new[of e'] e' show ?thesis by simp
    next
      assume "fst e \<in> fst ` set (ladder_of sd s)"
      then show ?thesis
        using wf e' unfolding wf_def uncrossed_sd[of _ sd] by auto
    qed
  qed
  have "wf ?s"
    unfolding wf_def using 1 2 wf by (simp add: wf_def)
  with False show ?thesis by (simp add: add_finish_def)
qed

lemma addOrder_rule:
  assumes wf: "wf s" and J0: "J (add_start s p qty sd ts)"
    and step: "\<And>t lvl' t'. wf_inc sd (length (store s)) t \<Longrightarrow> J t \<Longrightarrow>
        \<not> loop_exit sd (length (store s)) t \<Longrightarrow>
        matchOrders (length (store s)) (snd (hd (ladder_of (opposite sd) t))) t = Some (lvl', t') \<Longrightarrow>
        match_frame (length (store s)) (snd (hd (ladder_of (opposite sd) t))) t lvl' t' \<Longrightarrow>
        isFilled (store t' ! length (store s)) \<or> isEmpty lvl' \<Longrightarrow>
        J (ladder_map (opposite sd) (after_match lvl') t')"
  shows "\<exists>s2. addSideOrder_loop sd (length (store s)) (add_start s p qty sd ts) = Some s2 \<and>
           wf_inc sd (length (store s)) s2 \<and> J s2 \<and> loop_exit sd (length (store s)) s2 \<and>
           addOrder s p qty sd ts = Some (nextOrderId s, add_finish sd (length (store s)) s2) \<and>
           wf (add_finish sd (length (store s)) s2)"
proof -
  let ?h = "length (store s)"
  from addSideOrder_loop_rule2[of sd ?h "add_start s p qty sd ts" J, OF wf_add_start[OF wf] J0] step
  obtain s2 where s2: "addSideOrder_loop sd ?h (add_start s p qty sd ts) = Some s2"
    "wf_inc sd ?h s2" "J s2" "loop_exit sd ?h s2"
    by blast
  have "orderId (store s2 ! ?h) = of_nat ?h + 1"
    using s2(2) by (simp add: wf_inc_def wf_def ids_ok_def)
  moreover have "nextOrderId s = of_nat ?h + 1"
    using wf by (simp add: wf_def ids_ok_def)
  moreover have "store (add_finish sd ?h s2) = store s2"
    by (simp add: add_finish_def)
  ultimately have "orderId (store (add_finish sd ?h s2) ! ?h) = nextOrderId s"
    by simp
  then have "addOrder s p qty sd ts = Some (nextOrderId s, add_finish sd ?h s2)"
    by (simp add: addOrder_start addSideOrder_finish s2(1))
  with s2 wf_inc_finish[OF s2(2,4)] show ?thesis by blast
qed

lemma ladder_map_id [simp]: "ladder_map sd (\<lambda>m. m) s = s"
  by (simp add: ladder_map_def)

lemma removeOrder_ladder:
  "removeOrder h s =
     ladder_map (side (store s ! h)) (ladder_remove (store s) h (price (store s ! h))) s"
proof (cases "ladder_find (ladder_of (side (store s ! h)) s) (price (store s ! h))")
  case None
  then have "ladder_map (side (store s ! h)) (ladder_remove (store s) h (price (store s ! h))) s
      = ladder_map (side (store s ! h)) (\<lambda>m. m) s"
    by (cases "side (store s ! h)") (simp_all add: ladder_map_def ladder_remove_def ladder_of_def)
  with None show ?thesis by (simp add: removeOrder_def Let_def)
next
  case (Some lvl)
  then show ?thesis
    by (cases "side (store s ! h)")
       (simp_all add: removeOrder_def Let_def ladder_remove_def ladder_map_def ladder_of_def)
qed

lemma sorted_before_distinct: "sorted_wrt (before sd) ks \<Longrightarrow> distinct ks"
  by (induction ks) auto

lemma ladder_find_mem:
  assumes "sorted_wrt (before sd) (map fst m)" "(p, l) \<in> set m"
  shows "ladder_find m p = Some l"
  using sorted_before_distinct[OF assms(1)] assms(2) by (simp add: ladder_find_def)

lemma ladder_update_const:
  "ladder_find m p = Some lvl \<Longrightarrow> ladder_update p (\<lambda>l. g lvl) m = ladder_update p g m"
proof (induction m)
  case Nil
  then show ?case by simp
next
  case (Cons e m)
  then show ?case by (cases e) (auto simp: ladder_find_def)
qed



lemma set_ladder_erase: "set (ladder_erase p m) \<subseteq> set m"
proof (induction m)
  case Nil
  then show ?case by simp
next
  case (Cons e m)
  then show ?case by (cases e) auto
qed

lemma sorted_ladder_erase:
  "sorted_wrt bef (map fst m) \<Longrightarrow> sorted_wrt bef (map fst (ladder_erase p m))"
proof (induction m)
  case Nil
  then show ?case by simp
next
  case (Cons e m)
  then show ?case using set_ladder_erase[of p m] by (cases e) auto
qed

lemma set_queued_ladder_erase: "set (queued (ladder_erase p m)) \<subseteq> set (queued m)"
proof (induction m)
  case Nil
  then show ?case by simp
next
  case (Cons e m)
  then show ?case by (cases e) auto
qed

lemma distinct_queued_ladder_erase:
  "distinct (queued m) \<Longrightarrow> distinct (queued (ladder_erase p m))"
proof (induction m)
  case Nil
  then show ?case by simp
next
  case (Cons e m)
  then show ?case using set_queued_ladder_erase[of p m] by (cases e) auto
qed

lemma ladder_ok_erase:
  assumes "ladder_ok sd st m"
  shows "ladder_ok sd st (ladder_erase p m)"
  using assms set_ladder_erase[of p m]
  by (auto simp: ladder_ok_def sorted_ladder_erase distinct_queued_ladder_erase)

lemma set_queued_ladder_update_remove:
  "set (queued (ladder_update p (\<lambda>l. level_removeOrder st l h) m)) \<subseteq> set (queued m)"
proof (induction m)
  case Nil
  then show ?case by simp
next
  case (Cons e m)
  then show ?case by (cases e) (auto simp: level_removeOrder_def)
qed

lemma distinct_queued_ladder_update_remove:
  "distinct (queued m) \<Longrightarrow> distinct (queued (ladder_update p (\<lambda>l. level_removeOrder st l h) m))"
proof (induction m)
  case Nil
  then show ?case by simp
next
  case (Cons e m)
  then show ?case
    using set_queued_ladder_update_remove[of p st h m]
    by (cases e) (auto simp: level_removeOrder_def distinct_removeAll)
qed

lemma ladder_ok_remove:
  assumes ok: "ladder_ok sd st m"
  shows "ladder_ok sd st (ladder_remove st h p m)"
proof (cases "ladder_find m p")
  case None
  with ok show ?thesis by (simp add: ladder_remove_def)
next
  case (Some lvl)
  show ?thesis
  proof (cases "isEmpty (level_removeOrder st lvl h)")
    case True
    with Some ok show ?thesis by (simp add: ladder_remove_def ladder_ok_erase)
  next
    case False
    let ?m = "ladder_update p (\<lambda>l. level_removeOrder st l h) m"
    have eq: "ladder_remove st h p m = ?m"
      using Some False
      by (simp add: ladder_remove_def ladder_update_const[OF Some, of "\<lambda>l. level_removeOrder st l h"])
    have "level_ok sd st e" if "e \<in> set ?m" for e
    proof -
      from set_ladder_update[OF that] show ?thesis
      proof
        assume "e \<in> set m" with ok show ?thesis by (simp add: ladder_ok_def)
      next
        assume "\<exists>l. (p, l) \<in> set m \<and> e = (p, level_removeOrder st l h)"
        then obtain l where l: "(p, l) \<in> set m" "e = (p, level_removeOrder st l h)" by blast
        have "ladder_find m p = Some l"
          using ok l(1) by (auto simp: ladder_ok_def intro: ladder_find_mem)
        with Some have "l = lvl" by simp
        moreover from ok l(1) have "level_ok sd st (p, l)" by (auto simp: ladder_ok_def)
        ultimately show ?thesis
          using False by (auto simp: l(2) level_ok_def level_removeOrder_def isEmpty_def)
      qed
    qed
    then show ?thesis
      using ok unfolding eq by (simp add: ladder_ok_def distinct_queued_ladder_update_remove)
  qed
qed

lemma ladder_remove_keys: "fst ` set (ladder_remove st h p m) \<subseteq> fst ` set m"
proof (cases "ladder_find m p")
  case None
  then show ?thesis by (simp add: ladder_remove_def)
next
  case (Some lvl)
  have "fst ` set (ladder_update p (\<lambda>l. level_removeOrder st lvl h) m) = fst ` set m"
    using ladder_update_keys[of p _ m] by (metis list.set_map)
  then show ?thesis
    using Some set_ladder_erase[of p m] by (auto simp: ladder_remove_def)
qed

lemma nth_update_keeps:
  assumes "\<And>x. f (g x) = f x"
  shows "f (xs[i := g (xs ! i)] ! j) = f (xs ! j)"
proof (cases "i < length xs")
  case True
  then show ?thesis by (cases "i = j") (simp_all add: assms)
next
  case False
  then have "xs[i := g (xs ! i)] = xs" by (simp add: not_less list_update_beyond)
  then show ?thesis by simp
qed

lemma nth_update_status [simp]:
  "orderId (st[h := (st ! h)\<lparr>status := v\<rparr>] ! j) = orderId (st ! j)"
  "timestamp (st[h := (st ! h)\<lparr>status := v\<rparr>] ! j) = timestamp (st ! j)"
  "price (st[h := (st ! h)\<lparr>status := v\<rparr>] ! j) = price (st ! j)"
  "quantity (st[h := (st ! h)\<lparr>status := v\<rparr>] ! j) = quantity (st ! j)"
  "filledQuantity (st[h := (st ! h)\<lparr>status := v\<rparr>] ! j) = filledQuantity (st ! j)"
  "side (st[h := (st ! h)\<lparr>status := v\<rparr>] ! j) = side (st ! j)"
  by (rule nth_update_keeps, simp)+

lemma nth_update_quantity [simp]:
  "orderId (st[h := (st ! h)\<lparr>quantity := v\<rparr>] ! j) = orderId (st ! j)"
  "timestamp (st[h := (st ! h)\<lparr>quantity := v\<rparr>] ! j) = timestamp (st ! j)"
  "price (st[h := (st ! h)\<lparr>quantity := v\<rparr>] ! j) = price (st ! j)"
  "status (st[h := (st ! h)\<lparr>quantity := v\<rparr>] ! j) = status (st ! j)"
  "filledQuantity (st[h := (st ! h)\<lparr>quantity := v\<rparr>] ! j) = filledQuantity (st ! j)"
  "side (st[h := (st ! h)\<lparr>quantity := v\<rparr>] ! j) = side (st ! j)"
  by (rule nth_update_keeps, simp)+

lemma ladder_update_key_set [simp]: "fst ` set (ladder_update p f m) = fst ` set m"
proof -
  have "set (map fst (ladder_update p f m)) = set (map fst m)" by simp
  then show ?thesis by (simp only: set_map)
qed

lemma wfI:
  assumes "\<And>sd. ladder_ok sd (store s) (ladder_of sd s)" "uncrossed s" "index_ok s" "ids_ok s"
    "no_rejected s"
  shows "wf s"
  using assms by (simp add: wf_def)

lemma uncrossed_mono:
  assumes "uncrossed s" "\<And>sd. fst ` set (ladder_of sd s') \<subseteq> fst ` set (ladder_of sd s)"
  shows "uncrossed s'"
proof -
  have *: "fst ` set (bids s') \<subseteq> fst ` set (bids s)" "fst ` set (asks s') \<subseteq> fst ` set (asks s)"
    using assms(2)[of BUY] assms(2)[of SELL] by (simp_all add: ladder_of_def)
  show ?thesis
    unfolding uncrossed_def
  proof (intro ballI)
    fix b a assume "b \<in> set (bids s')" "a \<in> set (asks s')"
    with * have "fst b \<in> fst ` set (bids s)" "fst a \<in> fst ` set (asks s)" by blast+
    then obtain b0 a0 where "b0 \<in> set (bids s)" "fst b0 = fst b" "a0 \<in> set (asks s)"
      "fst a0 = fst a" by auto
    with assms(1) show "fst b < fst a" unfolding uncrossed_def by metis
  qed
qed

lemma cancelOrder_False:
  assumes "\<not> (\<exists>h. orderMap s oid = Some h \<and> status (store s ! h) \<noteq> FILLED \<and>
                status (store s ! h) \<noteq> CANCELLED)"
  shows "cancelOrder s oid = (False, s)"
  using assms by (cases "orderMap s oid") (auto simp: cancelOrder_def)

lemma cancelOrder_True:
  assumes "orderMap s oid = Some h" "status (store s ! h) \<noteq> FILLED"
    "status (store s ! h) \<noteq> CANCELLED"
  shows "fst (cancelOrder s oid) = True"
    and "store (snd (cancelOrder s oid)) = (store s)[h := (store s ! h)\<lparr>status := CANCELLED\<rparr>]"
    and "orderMap (snd (cancelOrder s oid)) = (orderMap s)(oid := None)"
    and "trades (snd (cancelOrder s oid)) = trades s"
    and "nextOrderId (snd (cancelOrder s oid)) = nextOrderId s"
    and "ladder_of sd (snd (cancelOrder s oid)) =
           (if sd = side (store s ! h)
            then ladder_remove (store s) h (price (store s ! h)) (ladder_of sd s)
            else ladder_of sd s)"
  using assms by (simp_all add: cancelOrder_def Let_def removeOrder_ladder)

lemma cancelOrder_wf:
  assumes wf: "wf s"
  shows "wf (snd (cancelOrder s oid))"
proof (cases "\<exists>h. orderMap s oid = Some h \<and> status (store s ! h) \<noteq> FILLED \<and>
                status (store s ! h) \<noteq> CANCELLED")
  case False
  with wf show ?thesis by (simp add: cancelOrder_False)
next
  case True
  then obtain h where h: "orderMap s oid = Some h" "status (store s ! h) \<noteq> FILLED"
    "status (store s ! h) \<noteq> CANCELLED" by blast
  note c = cancelOrder_True[OF h]
  let ?s = "snd (cancelOrder s oid)"
  have hl: "h < length (store s)" using wf h(1) by (simp add: wf_def index_ok_def)
  show ?thesis
  proof (rule wfI)
    fix sd
    have "ladder_ok sd (store s) (ladder_of sd ?s)"
      using wf by (simp add: c(6) wf_def ladder_ok_remove)
    then show "ladder_ok sd (store ?s) (ladder_of sd ?s)"
      by (rule ladder_ok_store) (simp_all add: c(2))
  next
    show "uncrossed ?s"
    proof (rule uncrossed_mono)
      show "uncrossed s" using wf by (simp add: wf_def)
      show "fst ` set (ladder_of sd ?s) \<subseteq> fst ` set (ladder_of sd s)" for sd
        by (simp add: c(6) ladder_remove_keys)
    qed
  next
    show "index_ok ?s"
      using wf by (simp add: wf_def index_ok_def c(2,3))
    show "ids_ok ?s"
      using wf by (simp add: wf_def ids_ok_def c(2,5))
    show "no_rejected ?s"
      using wf hl by (auto simp: wf_def no_rejected_def c(2) nth_list_update)
  qed
qed

lemma ladder_ok_update_total:
  assumes "ladder_ok sd st m" "\<And>l. orders (f l) = orders l" "\<And>l. level_price (f l) = level_price l"
  shows "ladder_ok sd st (ladder_update p f m)"
proof -
  have "map (orders \<circ> snd) (ladder_update p f m) = map (orders \<circ> snd) m"
    by (rule ladder_update_snd_keep) (simp add: assms(2))
  then have q: "queued (ladder_update p f m) = queued m" by (simp add: queued_def)
  have "level_ok sd st e" if "e \<in> set (ladder_update p f m)" for e
    using set_ladder_update[OF that] assms by (auto simp: ladder_ok_def level_ok_def)
  then show ?thesis using assms(1) by (simp add: ladder_ok_def q)
qed

lemma modifyOrder_False: "orderMap s oid = None \<Longrightarrow> modifyOrder s oid nq = (False, s)"
  by (simp add: modifyOrder_def)

lemma modifyOrder_True:
  assumes "orderMap s oid = Some h"
  shows "fst (modifyOrder s oid nq) = True"
    and "store (snd (modifyOrder s oid nq)) = (store s)[h := (store s ! h)\<lparr>quantity := nq\<rparr>]"
    and "orderMap (snd (modifyOrder s oid nq)) = orderMap s"
    and "trades (snd (modifyOrder s oid nq)) = trades s"
    and "nextOrderId (snd (modifyOrder s oid nq)) = nextOrderId s"
    and "ladder_of sd (snd (modifyOrder s oid nq)) =
           (if sd = side (store s ! h)
            then ladder_update (price (store s ! h))
                   (\<lambda>l. l\<lparr>totalQuantity := totalQuantity l + (nq - quantity (store s ! h))\<rparr>)
                   (ladder_of sd s)
            else ladder_of sd s)"
  using assms by (simp_all add: modifyOrder_def Let_def)

lemma modifyOrder_wf:
  assumes wf: "wf s"
  shows "wf (snd (modifyOrder s oid nq))"
proof (cases "orderMap s oid")
  case None
  with wf show ?thesis by (simp add: modifyOrder_False)
next
  case (Some h)
  note c = modifyOrder_True[OF Some, where nq = nq]
  let ?s = "snd (modifyOrder s oid nq)"
  show ?thesis
  proof (rule wfI)
    fix sd
    have "ladder_ok sd (store s) (ladder_of sd ?s)"
      using wf by (simp add: c(6) wf_def ladder_ok_update_total)
    then show "ladder_ok sd (store ?s) (ladder_of sd ?s)"
      by (rule ladder_ok_store) (simp_all add: c(2))
  next
    show "uncrossed ?s"
    proof (rule uncrossed_mono)
      show "uncrossed s" using wf by (simp add: wf_def)
      show "fst ` set (ladder_of sd ?s) \<subseteq> fst ` set (ladder_of sd s)" for sd
        by (simp add: c(6))
    qed
  next
    show "index_ok ?s"
      using wf by (simp add: wf_def index_ok_def c(2,3))
    show "ids_ok ?s"
      using wf by (simp add: wf_def ids_ok_def c(2,5))
    show "no_rejected ?s"
      using wf by (simp add: wf_def no_rejected_def c(2))
  qed
qed

lemma addOrder_wf:
  assumes "wf s"
  shows "\<exists>s'. addOrder s p qty sd ts = Some (nextOrderId s, s') \<and> wf s'"
  using addOrder_rule[OF assms, of "\<lambda>_. True" p qty sd ts] by auto

lemma step_wf:
  assumes "wf s"
  shows "\<exists>s'. step s x = Some s' \<and> wf s'"
proof (cases x)
  case (Submit p qty sd ts)
  with addOrder_wf[OF assms, of p qty sd ts] show ?thesis by auto
next
  case (Cancel oid)
  with cancelOrder_wf[OF assms] show ?thesis by simp
next
  case (Modify oid nq)
  with modifyOrder_wf[OF assms] show ?thesis by simp
qed

lemma run_wf:
  assumes "wf s"
  shows "\<exists>s'. run s xs = Some s' \<and> wf s'"
  using assms
proof (induction xs arbitrary: s)
  case Nil
  then show ?case by simp
next
  case (Cons x xs)
  from step_wf[OF Cons.prems, of x] obtain s1 where "step s x = Some s1" "wf s1" by blast
  with Cons.IH[of s1] show ?case by simp
qed

lemma wf_emptyBook: "wf emptyBook"
  by (simp add: wf_def emptyBook_def ladder_ok_def ladder_of_def uncrossed_def index_ok_def
      ids_ok_def no_rejected_def)

lemma run_append: "run s (xs @ ys) = Option.bind (run s xs) (\<lambda>s'. run s' ys)"
  by (induction xs arbitrary: s) (auto split: Option.bind_split)

lemma reachable_wf: "run emptyBook xs = Some s \<Longrightarrow> wf s"
  using run_wf[OF wf_emptyBook, of xs] by auto




section \<open>Fills never exceed the quantity\<close>

lemma matchOrders_result_inv:
  assumes "match_pre inc lvl s" "matchOrders inc lvl s = Some (lvl', s')" "I lvl s"
    and "\<And>l1 s1. match_pre inc l1 s1 \<Longrightarrow> match_frame inc lvl s l1 s1 \<Longrightarrow> I l1 s1 \<Longrightarrow>
                 matchOrders_cond inc l1 s1 \<Longrightarrow>
                 I (fst (matchOrders_body inc l1 s1)) (snd (matchOrders_body inc l1 s1))"
  shows "I lvl' s'"
  using matchOrders_rule2[of inc lvl s I, OF assms(1,3,4)] assms(2) by auto

lemma step_match_pre:
  assumes "wf_inc sd inc t" "\<not> loop_exit sd inc t"
  shows "match_pre inc (snd (hd (ladder_of (opposite sd) t))) t"
proof -
  from assms(2) have "ladder_of (opposite sd) t \<noteq> []" by (simp add: loop_exit_def)
  then have "hd (ladder_of (opposite sd) t) \<in> set (ladder_of (opposite sd) t)" by simp
  with wf_inc_loop_pre[OF assms(1)] show ?thesis by (simp add: loop_pre_def)
qed

lemma match_qty_le:
  "match_qty inc lvl s \<le> getRemainingQuantity (store s ! inc)"
  "match_qty inc lvl s \<le> getRemainingQuantity (store s ! hd (orders lvl))"
  by (simp_all add: match_qty_def)

lemma fill_le:
  assumes "filledQuantity ord \<le> quantity ord" "q \<le> getRemainingQuantity ord"
  shows "filledQuantity (fill ord q) \<le> quantity (fill ord q)"
  using assms by (simp add: getRemainingQuantity_def le_plus')

lemma body_fills_le:
  assumes pre: "match_pre inc lvl s" and c: "matchOrders_cond inc lvl s" and f: "fills_le s"
  shows "fills_le (snd (matchOrders_body inc lvl s))"
  unfolding fills_le_def body_length[OF pre c]
proof (intro allI impI)
  fix h assume h: "h < length (store s)"
  note hd = cond_hd[OF pre c]
  let ?s = "snd (matchOrders_body inc lvl s)"
  from f h have le: "filledQuantity (store s ! h) \<le> quantity (store s ! h)"
    by (simp add: fills_le_def)
  consider "h = inc" | "h = hd (orders lvl)" | "h \<noteq> inc" "h \<noteq> hd (orders lvl)" by blast
  then show "filledQuantity (store ?s ! h) \<le> quantity (store ?s ! h)"
  proof cases
    case 1
    with le show ?thesis
      unfolding 1 body_inc[OF pre c] by (intro fill_le match_qty_le) simp
  next
    case 2
    with le show ?thesis
      unfolding 2 body_resting[OF pre c] by (intro fill_le match_qty_le) simp
  next
    case 3
    with le show ?thesis by (simp add: body_other[OF pre c])
  qed
qed

lemma addOrder_fills_le:
  assumes wf: "wf s" and f: "fills_le s" and a: "addOrder s p qty sd ts = Some (oid, s')"
  shows "fills_le s'"
proof -
  let ?h = "length (store s)"
  have "\<exists>s2. addSideOrder_loop sd ?h (add_start s p qty sd ts) = Some s2 \<and>
           wf_inc sd ?h s2 \<and> fills_le s2 \<and> loop_exit sd ?h s2 \<and>
           addOrder s p qty sd ts = Some (nextOrderId s, add_finish sd ?h s2) \<and>
           wf (add_finish sd ?h s2)"
  proof (rule addOrder_rule[OF wf])
    show "fills_le (add_start s p qty sd ts)"
      using f by (auto simp: fills_le_def nth_append less_Suc_eq)
  next
    fix t lvl' t'
    assume t: "wf_inc sd ?h t" "fills_le t" "\<not> loop_exit sd ?h t"
      "matchOrders ?h (snd (hd (ladder_of (opposite sd) t))) t = Some (lvl', t')"
    have "fills_le t'"
      by (rule matchOrders_result_inv[OF step_match_pre[OF t(1,3)] t(4), of "\<lambda>_. fills_le"])
         (simp_all add: t(2) body_fills_le)
    then show "fills_le (ladder_map (opposite sd) (after_match lvl') t')"
      by (simp add: fills_le_def)
  qed
  then obtain s2 where "fills_le s2" "addOrder s p qty sd ts = Some (nextOrderId s, add_finish sd ?h s2)"
    by blast
  with a have "s' = add_finish sd ?h s2" "fills_le s2" by simp_all
  then show ?thesis by (simp add: fills_le_def add_finish_def)
qed

lemma step_fills_le:
  assumes wf: "wf s" and f: "fills_le s" and r: "op_respects (\<le>) s x" and st: "step s x = Some s'"
  shows "fills_le s'"
proof (cases x)
  case (Submit p qty sd ts)
  with st obtain oid where "addOrder s p qty sd ts = Some (oid, s')" by auto
  from addOrder_fills_le[OF wf f this] show ?thesis .
next
  case (Cancel oid)
  with st have s': "s' = snd (cancelOrder s oid)" by simp
  show ?thesis
  proof (cases "\<exists>h. orderMap s oid = Some h \<and> status (store s ! h) \<noteq> FILLED \<and>
                status (store s ! h) \<noteq> CANCELLED")
    case True
    then obtain h where h: "orderMap s oid = Some h" "status (store s ! h) \<noteq> FILLED"
      "status (store s ! h) \<noteq> CANCELLED" by blast
    from f show ?thesis
      by (simp add: s' fills_le_def cancelOrder_True(2)[OF h])
  next
    case False
    with f show ?thesis by (simp add: s' cancelOrder_False)
  qed
next
  case (Modify oid nq)
  with st have s': "s' = snd (modifyOrder s oid nq)" by simp
  show ?thesis
  proof (cases "orderMap s oid")
    case None
    with f show ?thesis by (simp add: s' modifyOrder_False)
  next
    case (Some h)
    with r Modify have le: "filledQuantity (store s ! h) \<le> nq" by simp
    show ?thesis
      unfolding fills_le_def s' modifyOrder_True(2)[OF Some]
    proof (intro allI impI)
      fix j assume j: "j < length ((store s)[h := (store s ! h)\<lparr>quantity := nq\<rparr>])"
      show "filledQuantity ((store s)[h := (store s ! h)\<lparr>quantity := nq\<rparr>] ! j)
              \<le> quantity ((store s)[h := (store s ! h)\<lparr>quantity := nq\<rparr>] ! j)"
        using f j le by (cases "j = h") (simp_all add: fills_le_def)
    qed
  qed
qed

lemma run_fills_le:
  assumes "wf s" "fills_le s" "modifies_respect (\<le>) s xs" "run s xs = Some s'"
  shows "fills_le s'"
  using assms
proof (induction xs arbitrary: s)
  case Nil
  then show ?case by simp
next
  case (Cons x xs)
  from Cons.prems(3) obtain s1 where s1: "step s x = Some s1" "op_respects (\<le>) s x"
    "modifies_respect (\<le>) s1 xs"
    by (auto split: option.splits)
  from step_wf[OF Cons.prems(1), of x] s1(1) have "wf s1" by simp
  moreover have "fills_le s1" by (rule step_fills_le[OF Cons.prems(1,2) s1(2,1)])
  moreover from Cons.prems(4) s1(1) have "run s1 xs = Some s'" by simp
  ultimately show ?case using Cons.IH s1(3) by blast
qed

section \<open>The trade log\<close>

lemma trade_between_ext:
  "trade_between st i j t \<Longrightarrow> store_ext st st' \<Longrightarrow> trade_between st' i j t"
  by (auto simp: trade_between_def store_ext_def)

lemma trade_ok_ext: "trade_ok st t \<Longrightarrow> store_ext st st' \<Longrightarrow> trade_ok st' t"
  unfolding trade_ok_def using trade_between_ext by blast

lemma store_ext_refl [simp]: "store_ext st st"
  by (simp add: store_ext_def)

lemma frame_store_ext:
  assumes "match_frame inc lvl s lvl' s'"
  shows "store_ext (store s) (store s')"
  using frame_static[OF assms] by (simp add: store_ext_def frame_length[OF assms])

lemma body_store_ext:
  assumes "match_pre inc lvl s" "matchOrders_cond inc lvl s"
  shows "store_ext (store s) (store (snd (matchOrders_body inc lvl s)))"
  using match_frame_body[OF assms] by (rule frame_store_ext)

lemma body_trades_inv:
  assumes pre: "match_pre inc lvl s" and c: "matchOrders_cond inc lvl s"
    and i: "match_trades_inv inc lvl s"
  shows "match_trades_inv inc (fst (matchOrders_body inc lvl s)) (snd (matchOrders_body inc lvl s))"
proof -
  let ?l = "fst (matchOrders_body inc lvl s)" and ?s = "snd (matchOrders_body inc lvl s)"
  let ?r = "hd (orders lvl)"
  note hd = cond_hd[OF pre c]
  note fr = match_frame_body[OF pre c]
  note ext = body_store_ext[OF pre c]
  have valid: "\<forall>h \<in> set (orders lvl). h < length (store s)" using pre by (simp add: match_pre_def)
  from i hd(1) have r: "?r < inc" "side (store s ! ?r) = opposite (side (store s ! inc))"
    by (simp_all add: match_trades_inv_def)
  let ?t = "\<lparr>buyOrderId = (if side (store s ! inc) = BUY then orderId (store s ! inc)
                           else orderId (store s ! ?r)),
             sellOrderId = (if side (store s ! inc) = SELL then orderId (store s ! inc)
                            else orderId (store s ! ?r)),
             trade_price = price (store s ! ?r),
             trade_quantity = match_qty inc lvl s,
             trade_timestamp = timestamp (store s ! inc)\<rparr>"
  have "trade_between (store s) inc ?r ?t"
    using r hd(4) by (simp add: trade_between_def)
  then have "trade_between (store ?s) inc ?r ?t"
    using ext by (rule trade_between_ext)
  then have new: "trade_ok (store ?s) ?t"
    unfolding trade_ok_def by blast
  have old: "trade_ok (store ?s) t" if "t \<in> set (trades s)" for t
  proof -
    from i that have "trade_ok (store s) t" by (simp add: match_trades_inv_def trades_ok_def)
    then show ?thesis using ext by (rule trade_ok_ext)
  qed
  have 1: "trades_ok ?s"
    using new old by (auto simp: trades_ok_def body_trades[OF pre c])
  have sub: "set (orders ?l) \<subseteq> set (orders lvl)"
    using fr by (auto simp: match_frame_def dest: set_mono_suffix)
  have 2: "h < inc \<and> side (store ?s ! h) = opposite (side (store ?s ! inc))"
    if "h \<in> set (orders ?l)" for h
  proof -
    from that sub have h: "h \<in> set (orders lvl)" by blast
    with valid have "h < length (store s)" by simp
    with i h hd(4) show ?thesis
      by (simp add: match_trades_inv_def frame_static[OF fr])
  qed
  from 1 2 show ?thesis by (simp add: match_trades_inv_def)
qed

lemma trades_ok_ladder_map [simp]: "trades_ok (ladder_map sd f s) = trades_ok s"
  by (simp add: trades_ok_def)

lemma trades_ok_ext:
  assumes "trades_ok s" "trades s' = trades s" "store_ext (store s) (store s')"
  shows "trades_ok s'"
  unfolding trades_ok_def
proof
  fix t assume "t \<in> set (trades s')"
  with assms(1,2) have "trade_ok (store s) t" by (simp add: trades_ok_def)
  then show "trade_ok (store s') t" using assms(3) by (rule trade_ok_ext)
qed

lemma wf_inc_best:
  assumes w: "wf_inc sd inc t" and ne: "\<not> loop_exit sd inc t"
    and h: "h \<in> set (orders (snd (hd (ladder_of (opposite sd) t))))"
  shows "h \<in> set (queued (ladder_of (opposite sd) t))"
    and "side (store t ! h) = opposite (side (store t ! inc))"
    and "h < length (store t)" and "h \<noteq> inc"
proof -
  from ne have "ladder_of (opposite sd) t \<noteq> []" by (simp add: loop_exit_def)
  then have "hd (ladder_of (opposite sd) t) \<in> set (ladder_of (opposite sd) t)" by simp
  with h show q: "h \<in> set (queued (ladder_of (opposite sd) t))"
    by (auto simp: set_queued)
  from w have wf: "wf t" and s: "side (store t ! inc) = sd"
    and f: "inc \<notin> set (queued (ladder_of (opposite sd) t))"
    by (simp_all add: wf_inc_def)
  from wf_queued_valid[OF wf q] s
  show "side (store t ! h) = opposite (side (store t ! inc))" "h < length (store t)"
    by simp_all
  from q f show "h \<noteq> inc" by auto
qed

lemma step_queued_subset:
  assumes ne: "\<not> loop_exit sd inc t"
    and fr: "match_frame inc (snd (hd (ladder_of (opposite sd) t))) t lvl' t'"
  shows "set (queued (ladder_of sd' (ladder_map (opposite sd) (after_match lvl') t')))
           \<subseteq> set (queued (ladder_of sd' t))"
proof -
  from ne have n: "ladder_of (opposite sd) t \<noteq> []" by (simp add: loop_exit_def)
  have suf: "suffix (orders lvl') (orders (snd (hd (ladder_of (opposite sd) t))))"
    using fr by (simp add: match_frame_def)
  show ?thesis
    using set_queued_after_match[OF suf n]
    by (simp add: match_frame_ladder_of[OF fr])
qed

lemma addOrder_trades_ok:
  assumes wf: "wf s" and ok: "trades_ok s" and a: "addOrder s p qty sd ts = Some (oid, s')"
  shows "trades_ok s'"
proof -
  let ?h = "length (store s)"
  have "\<exists>s2. addSideOrder_loop sd ?h (add_start s p qty sd ts) = Some s2 \<and>
           wf_inc sd ?h s2 \<and> add_trades_inv ?h s2 \<and> loop_exit sd ?h s2 \<and>
           addOrder s p qty sd ts = Some (nextOrderId s, add_finish sd ?h s2) \<and>
           wf (add_finish sd ?h s2)"
  proof (rule addOrder_rule[OF wf])
    have e: "store_ext (store s) (store (add_start s p qty sd ts))"
      by (simp add: store_ext_def nth_append)
    have "trades_ok (add_start s p qty sd ts)"
      by (rule trades_ok_ext[OF ok _ e]) simp
    moreover have "h < ?h" if "h \<in> set (queued (ladder_of sd' s))" for sd' h
      using that by (rule wf_queued_valid(1)[OF wf])
    ultimately show "add_trades_inv ?h (add_start s p qty sd ts)"
      by (simp add: add_trades_inv_def)
  next
    fix t lvl' t'
    assume t: "wf_inc sd ?h t" "add_trades_inv ?h t" "\<not> loop_exit sd ?h t"
      "matchOrders ?h (snd (hd (ladder_of (opposite sd) t))) t = Some (lvl', t')"
      "match_frame ?h (snd (hd (ladder_of (opposite sd) t))) t lvl' t'"
    have "match_trades_inv ?h lvl' t'"
    proof (rule matchOrders_result_inv[OF step_match_pre[OF t(1,3)] t(4)])
      show "match_trades_inv ?h (snd (hd (ladder_of (opposite sd) t))) t"
        unfolding match_trades_inv_def
      proof (intro conjI ballI)
        show "trades_ok t" using t(2) by (simp add: add_trades_inv_def)
      next
        fix h assume h: "h \<in> set (orders (snd (hd (ladder_of (opposite sd) t))))"
        from wf_inc_best(1)[OF t(1,3) h] t(2) show "h < ?h"
          by (simp add: add_trades_inv_def)
        from wf_inc_best(2)[OF t(1,3) h]
        show "side (store t ! h) = opposite (side (store t ! ?h))" .
      qed
    qed (rule body_trades_inv)
    then have "trades_ok (ladder_map (opposite sd) (after_match lvl') t')"
      by (simp add: match_trades_inv_def)
    moreover have "h < ?h"
      if "h \<in> set (queued (ladder_of sd' (ladder_map (opposite sd) (after_match lvl') t')))"
      for sd' h
    proof -
      from that step_queued_subset[OF t(3,5), of sd']
      have "h \<in> set (queued (ladder_of sd' t))" by blast
      with t(2) show ?thesis by (simp add: add_trades_inv_def)
    qed
    ultimately show "add_trades_inv ?h (ladder_map (opposite sd) (after_match lvl') t')"
      by (simp add: add_trades_inv_def)
  qed
  then obtain s2 where "add_trades_inv ?h s2"
    "addOrder s p qty sd ts = Some (nextOrderId s, add_finish sd ?h s2)"
    by blast
  with a have "s' = add_finish sd ?h s2" "trades_ok s2" by (simp_all add: add_trades_inv_def)
  then show ?thesis by (simp add: add_finish_def)
qed

lemma step_trades_ok:
  assumes wf: "wf s" and ok: "trades_ok s" and st: "step s x = Some s'"
  shows "trades_ok s'"
proof (cases x)
  case (Submit p qty sd ts)
  with st obtain oid where "addOrder s p qty sd ts = Some (oid, s')" by auto
  from addOrder_trades_ok[OF wf ok this] show ?thesis .
next
  case (Cancel oid)
  with st have s': "s' = snd (cancelOrder s oid)" by simp
  show ?thesis
  proof (cases "\<exists>h. orderMap s oid = Some h \<and> status (store s ! h) \<noteq> FILLED \<and>
                status (store s ! h) \<noteq> CANCELLED")
    case True
    then obtain h where h: "orderMap s oid = Some h" "status (store s ! h) \<noteq> FILLED"
      "status (store s ! h) \<noteq> CANCELLED" by blast
    show ?thesis
      unfolding s' using ok
      by (rule trades_ok_ext) (simp_all add: cancelOrder_True[OF h] store_ext_def)
  next
    case False
    with ok show ?thesis by (simp add: s' cancelOrder_False)
  qed
next
  case (Modify oid nq)
  with st have s': "s' = snd (modifyOrder s oid nq)" by simp
  show ?thesis
  proof (cases "orderMap s oid")
    case None
    with ok show ?thesis by (simp add: s' modifyOrder_False)
  next
    case (Some h)
    show ?thesis
      unfolding s' using ok
      by (rule trades_ok_ext) (simp_all add: modifyOrder_True[OF Some] store_ext_def)
  qed
qed

lemma run_trades_ok:
  assumes "wf s" "trades_ok s" "run s xs = Some s'"
  shows "trades_ok s'"
  using assms
proof (induction xs arbitrary: s)
  case Nil
  then show ?case by simp
next
  case (Cons x xs)
  from Cons.prems(3) obtain s1 where s1: "step s x = Some s1" "run s1 xs = Some s'"
    by (auto split: Option.bind_splits)
  from step_wf[OF Cons.prems(1), of x] s1(1) have "wf s1" by simp
  moreover have "trades_ok s1" by (rule step_trades_ok[OF Cons.prems(1,2) s1(1)])
  ultimately show ?case using Cons.IH s1(2) by blast
qed

lemma remaining_nonzero: "\<not> isFilled ord \<Longrightarrow> getRemainingQuantity ord \<noteq> 0"
  by (auto simp: isFilled_def getRemainingQuantity_def)

lemma match_qty_pos:
  assumes "\<not> isFilled (store s ! inc)" "\<not> isFilled (store s ! hd (orders lvl))"
  shows "0 < match_qty inc lvl s"
  using remaining_nonzero[OF assms(1)] remaining_nonzero[OF assms(2)]
  by (simp add: match_qty_def min_def word_greater_zero_iff)

lemma body_pos_inv:
  assumes pre: "match_pre inc lvl s" and c: "matchOrders_cond inc lvl s"
    and i: "match_pos_inv lvl s"
  shows "match_pos_inv (fst (matchOrders_body inc lvl s)) (snd (matchOrders_body inc lvl s))"
proof -
  let ?l = "fst (matchOrders_body inc lvl s)" and ?s = "snd (matchOrders_body inc lvl s)"
  let ?r = "hd (orders lvl)"
  note hd = cond_hd[OF pre c]
  from i hd(1) have r: "\<not> isFilled (store s ! ?r)" by (simp add: match_pos_inv_def)
  have "0 < match_qty inc lvl s" using hd(6) r by (rule match_qty_pos)
  with i have 1: "trades_pos ?s"
    by (simp add: match_pos_inv_def trades_pos_def body_trades[OF pre c])
  have 2: "\<not> isFilled (store ?s ! h)" if h: "h \<in> set (orders ?l)" for h
  proof (cases "h = ?r")
    case True
    with h hd(5) have "\<not> isFilled (fill (store s ! ?r) (match_qty inc lvl s))"
      by (auto simp: body_level[OF pre c] split: if_splits)
    then show ?thesis by (simp add: True body_resting[OF pre c])
  next
    case False
    from h have "h \<in> set (orders lvl) \<or> h \<in> set (tl (orders lvl))"
      by (auto simp: body_level[OF pre c] split: if_splits)
    then have hl: "h \<in> set (orders lvl)"
      using hd(7) by (auto dest: list.set_sel(2))
    with pre have "h \<noteq> inc" by (auto simp: match_pre_def)
    with False have "store ?s ! h = store s ! h" by (simp add: body_other[OF pre c])
    with i hl show ?thesis by (simp add: match_pos_inv_def)
  qed
  from 1 2 show ?thesis by (simp add: match_pos_inv_def)
qed

lemma set_queued_after_match_cases:
  "h \<in> set (queued (after_match lvl' m)) \<Longrightarrow> h \<in> set (orders lvl') \<or> h \<in> set (queued (tl m))"
  by (cases m) (auto simp: after_match_def split: if_splits)

lemma queued_tl_not_hd:
  assumes "distinct (queued m)" "h \<in> set (queued (tl m))"
  shows "h \<notin> set (orders (snd (hd m)))" "h \<in> set (queued m)"
  using assms by (cases m; auto)+

lemma frame_other:
  assumes "match_frame inc lvl s lvl' s'" "h \<noteq> inc" "h \<notin> set (orders lvl)"
  shows "store s' ! h = store s ! h"
  using assms by (simp add: match_frame_def)

lemma step_pos_inv:
  assumes w: "wf_inc sd inc t" and j: "add_pos_inv t" and ne: "\<not> loop_exit sd inc t"
    and m: "matchOrders inc (snd (hd (ladder_of (opposite sd) t))) t = Some (lvl', t')"
    and fr: "match_frame inc (snd (hd (ladder_of (opposite sd) t))) t lvl' t'"
  shows "add_pos_inv (ladder_map (opposite sd) (after_match lvl') t')"
proof -
  let ?m = "ladder_of (opposite sd) t"
  let ?best = "snd (hd ?m)"
  let ?s = "ladder_map (opposite sd) (after_match lvl') t'"
  have wf: "wf t" and fresh: "\<And>sd'. inc \<notin> set (queued (ladder_of sd' t))"
    and si: "side (store t ! inc) = sd"
    using w by (simp_all add: wf_inc_def)
  have qu: "\<And>sd' h. h \<in> set (queued (ladder_of sd' t)) \<Longrightarrow> \<not> isFilled (store t ! h)"
    using j by (simp add: add_pos_inv_def queued_unfilled_def)
  have res: "match_pos_inv lvl' t'"
  proof (rule matchOrders_result_inv[OF step_match_pre[OF w ne] m])
    show "match_pos_inv ?best t"
      unfolding match_pos_inv_def
    proof (intro conjI ballI)
      show "trades_pos t" using j by (simp add: add_pos_inv_def)
    next
      fix h assume "h \<in> set (orders ?best)"
      from wf_inc_best(1)[OF w ne this] show "\<not> isFilled (store t ! h)" by (rule qu)
    qed
  qed (rule body_pos_inv)
  have d: "distinct (queued ?m)"
    using wf by (simp add: wf_def ladder_ok_def)
  have "\<not> isFilled (store t' ! h)" if h: "h \<in> set (queued (ladder_of sd' ?s))" for sd' h
  proof (cases "sd' = opposite sd")
    case True
    with h have "h \<in> set (queued (after_match lvl' ?m))"
      by (simp add: match_frame_ladder_of[OF fr])
    then have "h \<in> set (orders lvl') \<or> h \<in> set (queued (tl ?m))"
      by (rule set_queued_after_match_cases)
    then show ?thesis
    proof
      assume "h \<in> set (orders lvl')"
      with res show ?thesis by (simp add: match_pos_inv_def)
    next
      assume a: "h \<in> set (queued (tl ?m))"
      note q = queued_tl_not_hd[OF d a]
      from q(2) fresh[of "opposite sd"] have "h \<noteq> inc" by auto
      from frame_other[OF fr this q(1)] qu[OF q(2)] show ?thesis by simp
    qed
  next
    case False
    with h have q: "h \<in> set (queued (ladder_of sd' t))"
      by (simp add: match_frame_ladder_of[OF fr])
    from False have sd': "sd' = sd" by (cases sd; cases sd') auto
    from wf_queued_valid(2)[OF wf q] have s: "side (store t ! h) = sd" by (simp add: sd')
    have "h \<notin> set (orders ?best)"
    proof
      assume "h \<in> set (orders ?best)"
      from wf_inc_best(2)[OF w ne this] s si show False by simp
    qed
    moreover from q fresh[of sd'] have "h \<noteq> inc" by auto
    ultimately show ?thesis using frame_other[OF fr] qu[OF q] by simp
  qed
  moreover have "trades_pos t'" using res by (simp add: match_pos_inv_def)
  ultimately show ?thesis
    by (simp add: add_pos_inv_def queued_unfilled_def trades_pos_def)
qed

lemma addOrder_pos_inv:
  assumes wf: "wf s" and j: "add_pos_inv s" and a: "addOrder s p qty sd ts = Some (oid, s')"
  shows "add_pos_inv s'"
proof -
  let ?h = "length (store s)"
  have "\<exists>s2. addSideOrder_loop sd ?h (add_start s p qty sd ts) = Some s2 \<and>
           wf_inc sd ?h s2 \<and> add_pos_inv s2 \<and> loop_exit sd ?h s2 \<and>
           addOrder s p qty sd ts = Some (nextOrderId s, add_finish sd ?h s2) \<and>
           wf (add_finish sd ?h s2)"
  proof (rule addOrder_rule[OF wf])
    have "\<not> isFilled (store (add_start s p qty sd ts) ! h)"
      if "h \<in> set (queued (ladder_of sd' s))" for sd' h
    proof -
      from wf_queued_valid(1)[OF wf that] have "store (add_start s p qty sd ts) ! h = store s ! h"
        by (simp add: nth_append)
      with j that show ?thesis by (simp add: add_pos_inv_def queued_unfilled_def)
    qed
    with j show "add_pos_inv (add_start s p qty sd ts)"
      by (simp add: add_pos_inv_def queued_unfilled_def trades_pos_def)
  next
    fix t lvl' t'
    assume "wf_inc sd ?h t" "add_pos_inv t" "\<not> loop_exit sd ?h t"
      "matchOrders ?h (snd (hd (ladder_of (opposite sd) t))) t = Some (lvl', t')"
      "match_frame ?h (snd (hd (ladder_of (opposite sd) t))) t lvl' t'"
    then show "add_pos_inv (ladder_map (opposite sd) (after_match lvl') t')"
      by (rule step_pos_inv)
  qed
  then obtain s2 where s2: "add_pos_inv s2"
    "addOrder s p qty sd ts = Some (nextOrderId s, add_finish sd ?h s2)"
    by blast
  with a have s': "s' = add_finish sd ?h s2" by simp
  have st: "store s' = store s2" "trades s' = trades s2"
    by (simp_all add: s' add_finish_def)
  have q: "h = ?h \<and> \<not> isFilled (store s2 ! ?h) \<or> h \<in> set (queued (ladder_of sd' s2))"
    if "h \<in> set (queued (ladder_of sd' s'))" for sd' h
  proof (cases "isFilled (store s2 ! ?h)")
    case True
    with that show ?thesis by (simp add: s' add_finish_def)
  next
    case False
    show ?thesis
    proof (cases "sd' = sd")
      case True
      with that False show ?thesis
        by (simp add: s' add_finish_def ladder_addOrder_queued)
    next
      case F: False
      with that False show ?thesis by (simp add: s' add_finish_def)
    qed
  qed
  have "queued_unfilled s'"
    unfolding queued_unfilled_def st
  proof (intro allI ballI)
    fix sd' h assume "h \<in> set (queued (ladder_of sd' s'))"
    from q[OF this] s2(1) show "\<not> isFilled (store s2 ! h)"
      by (auto simp: add_pos_inv_def queued_unfilled_def)
  qed
  moreover have "trades_pos s'"
    using s2(1) by (simp add: trades_pos_def st add_pos_inv_def)
  ultimately show ?thesis by (simp add: add_pos_inv_def)
qed

lemma ladder_remove_queued_subset:
  "set (queued (ladder_remove st h p m)) \<subseteq> set (queued m)"
proof (cases "ladder_find m p")
  case None
  then show ?thesis by (simp add: ladder_remove_def)
next
  case (Some lvl)
  have "ladder_update p (\<lambda>l. level_removeOrder st lvl h) m =
        ladder_update p (\<lambda>l. level_removeOrder st l h) m"
    by (rule ladder_update_const[OF Some, of "\<lambda>l. level_removeOrder st l h"])
  then show ?thesis
    using Some set_queued_ladder_erase[of p m] set_queued_ladder_update_remove[of p st h m]
    by (simp add: ladder_remove_def)
qed

lemma queued_ladder_update_keep:
  assumes "\<And>l. orders (f l) = orders l"
  shows "queued (ladder_update p f m) = queued m"
proof -
  have "map (orders \<circ> snd) (ladder_update p f m) = map (orders \<circ> snd) m"
    by (rule ladder_update_snd_keep) (simp add: assms)
  then show ?thesis by (simp add: queued_def)
qed

lemma isFilled_update_status [simp]:
  "isFilled (st[h := (st ! h)\<lparr>status := v\<rparr>] ! j) = isFilled (st ! j)"
  by (simp add: isFilled_def)

lemma step_pos_inv_op:
  assumes wf: "wf s" and j: "add_pos_inv s" and r: "op_respects (<) s x"
    and st: "step s x = Some s'"
  shows "add_pos_inv s'"
proof (cases x)
  case (Submit p qty sd ts)
  with st obtain oid where "addOrder s p qty sd ts = Some (oid, s')" by auto
  from addOrder_pos_inv[OF wf j this] show ?thesis .
next
  case (Cancel oid)
  with st have s': "s' = snd (cancelOrder s oid)" by simp
  show ?thesis
  proof (cases "\<exists>h. orderMap s oid = Some h \<and> status (store s ! h) \<noteq> FILLED \<and>
                status (store s ! h) \<noteq> CANCELLED")
    case True
    then obtain h where h: "orderMap s oid = Some h" "status (store s ! h) \<noteq> FILLED"
      "status (store s ! h) \<noteq> CANCELLED" by blast
    note c = cancelOrder_True[OF h]
    have "queued_unfilled s'"
      unfolding queued_unfilled_def s' c(2)
    proof (intro allI ballI)
      fix sd k assume "k \<in> set (queued (ladder_of sd (snd (cancelOrder s oid))))"
      then have "k \<in> set (queued (ladder_of sd s))"
        using ladder_remove_queued_subset[of "store s" h "price (store s ! h)" "ladder_of sd s"]
        by (auto simp: c(6) split: if_splits)
      with j show "\<not> isFilled ((store s)[h := (store s ! h)\<lparr>status := CANCELLED\<rparr>] ! k)"
        by (simp add: add_pos_inv_def queued_unfilled_def)
    qed
    moreover have "trades_pos s'"
      using j by (simp add: s' trades_pos_def c(4) add_pos_inv_def)
    ultimately show ?thesis by (simp add: add_pos_inv_def)
  next
    case False
    with j show ?thesis by (simp add: s' cancelOrder_False)
  qed
next
  case (Modify oid nq)
  with st have s': "s' = snd (modifyOrder s oid nq)" by simp
  show ?thesis
  proof (cases "orderMap s oid")
    case None
    with j show ?thesis by (simp add: s' modifyOrder_False)
  next
    case (Some h)
    note c = modifyOrder_True[OF Some, where nq = nq]
    from r Modify Some have lt: "filledQuantity (store s ! h) < nq" by simp
    have hl: "h < length (store s)" using wf Some by (simp add: wf_def index_ok_def)
    have "queued_unfilled s'"
      unfolding queued_unfilled_def s' c(2)
    proof (intro allI ballI)
      fix sd k assume "k \<in> set (queued (ladder_of sd (snd (modifyOrder s oid nq))))"
      then have k: "k \<in> set (queued (ladder_of sd s))"
        by (simp add: c(6) queued_ladder_update_keep split: if_splits)
      show "\<not> isFilled ((store s)[h := (store s ! h)\<lparr>quantity := nq\<rparr>] ! k)"
      proof (cases "k = h")
        case True
        with hl lt show ?thesis by (simp add: isFilled_def not_le)
      next
        case False
        with j k show ?thesis by (simp add: add_pos_inv_def queued_unfilled_def)
      qed
    qed
    moreover have "trades_pos s'"
      using j by (simp add: s' trades_pos_def c(4) add_pos_inv_def)
    ultimately show ?thesis by (simp add: add_pos_inv_def)
  qed
qed

lemma run_pos_inv:
  assumes "wf s" "add_pos_inv s" "modifies_respect (<) s xs" "run s xs = Some s'"
  shows "add_pos_inv s'"
  using assms
proof (induction xs arbitrary: s)
  case Nil
  then show ?case by simp
next
  case (Cons x xs)
  from Cons.prems(3) obtain s1 where s1: "step s x = Some s1" "op_respects (<) s x"
    "modifies_respect (<) s1 xs"
    by (auto split: option.splits)
  from step_wf[OF Cons.prems(1), of x] s1(1) have "wf s1" by simp
  moreover have "add_pos_inv s1" by (rule step_pos_inv_op[OF Cons.prems(1,2) s1(2,1)])
  moreover from Cons.prems(4) s1(1) have "run s1 xs = Some s'" by simp
  ultimately show ?case using Cons.IH s1(3) by blast
qed

section \<open>Submits that do not cross\<close>

lemma addOrder_not_crossing:
  assumes wf: "wf s" and q: "qty \<noteq> 0"
    and nc: "ladder_of (opposite sd) s = [] \<or>
             before (opposite sd) p (fst (hd (ladder_of (opposite sd) s)))"
  shows "addOrder s p qty sd ts =
           Some (nextOrderId s,
                 ladder_map sd
                   (ladder_addOrder (before sd) (store s @ [mkOrder (nextOrderId s) ts p qty sd])
                      (length (store s)))
                   (add_start s p qty sd ts))"
proof -
  let ?h = "length (store s)" and ?S = "add_start s p qty sd ts"
  have lv: "level_price (snd (hd (ladder_of (opposite sd) s))) = fst (hd (ladder_of (opposite sd) s))"
    if "ladder_of (opposite sd) s \<noteq> []"
  proof -
    from that have "hd (ladder_of (opposite sd) s) \<in> set (ladder_of (opposite sd) s)" by simp
    with wf show ?thesis
      by (auto simp: wf_def ladder_ok_def level_ok_def dest!: spec[of _ "opposite sd"])
  qed
  have ex: "ladder_of (opposite sd) ?S = [] \<or>
            before (opposite sd) (price (store ?S ! ?h))
              (level_price (snd (hd (ladder_of (opposite sd) ?S))))"
    using nc lv by (cases "ladder_of (opposite sd) s = []") simp_all
  have nf: "\<not> isFilled (store ?S ! ?h)" using q by (simp add: isFilled_def)
  have "addSideOrder_loop sd ?h ?S = Some ?S"
    using ex by (subst addSideOrder_loop.simps) (auto simp: Let_def)
  then have "addSideOrder sd ?h ?S = Some (add_finish sd ?h ?S)"
    by (simp add: addSideOrder_finish)
  then show ?thesis using nf by (simp add: addOrder_start add_finish_def)
qed

section \<open>Orders in the index that rest in no ladder\<close>

lemma ids_distinct:
  assumes "ids_ok s" "length (store s) < 2 ^ 64" "h < length (store s)" "k < length (store s)"
    and "orderId (store s ! h) = orderId (store s ! k)"
  shows "h = k"
proof -
  from assms(1,3,4,5) have "(of_nat h :: u64) = of_nat k" by (simp add: ids_ok_def)
  then have "take_bit 64 h = take_bit 64 k" by (simp add: word_of_nat_eq_iff)
  moreover have "h < 2 ^ 64" "k < 2 ^ 64" using assms(2,3,4) by simp_all
  ultimately show ?thesis by (simp add: take_bit_nat_eq_self)
qed

lemma next_id_fresh:
  assumes "ids_ok s" "length (store s) < 2 ^ 64" "h < length (store s)"
  shows "orderId (store s ! h) \<noteq> nextOrderId s"
proof
  assume "orderId (store s ! h) = nextOrderId s"
  with assms(1,3) have "(of_nat h :: u64) = of_nat (length (store s))" by (simp add: ids_ok_def)
  then have "take_bit 64 h = take_bit 64 (length (store s))" by (simp add: word_of_nat_eq_iff)
  moreover have "h < 2 ^ 64" using assms(2,3) by simp
  ultimately show False using assms(2,3) by (simp add: take_bit_nat_eq_self)
qed

lemma step_idle_new:
  assumes w: "wf_inc sd inc t" and k: "idle_new oid h t" and hi: "h \<noteq> inc"
    and len: "length (store t) < 2 ^ 64" and ne: "\<not> loop_exit sd inc t"
    and fr: "match_frame inc (snd (hd (ladder_of (opposite sd) t))) t lvl' t'"
  shows "idle_new oid h (ladder_map (opposite sd) (after_match lvl') t')"
proof -
  let ?best = "snd (hd (ladder_of (opposite sd) t))"
  have wf: "wf t" using w by (simp add: wf_inc_def)
  from k have om: "orderMap t oid = Some h" and hl: "h < length (store t)"
    and st: "status (store t ! h) = NEW"
    and nq: "\<And>sd'. h \<notin> set (queued (ladder_of sd' t))"
    by (simp_all add: idle_new_def)
  have id: "orderId (store t ! h) = oid" using wf om by (simp add: wf_def index_ok_def)
  have nb: "h \<notin> set (orders ?best)"
    using wf_inc_best(1)[OF w ne, of h] nq[of "opposite sd"] by blast
  have "orderMap t' oid = orderMap t oid \<or>
        (orderMap t' oid = None \<and> (\<exists>h' \<in> set (orders ?best). orderId (store t ! h') = oid))"
    using fr by (simp add: match_frame_def)
  then have 1: "orderMap t' oid = Some h"
  proof
    assume "orderMap t' oid = orderMap t oid" with om show ?thesis by simp
  next
    assume "orderMap t' oid = None \<and> (\<exists>h' \<in> set (orders ?best). orderId (store t ! h') = oid)"
    then obtain h' where h': "h' \<in> set (orders ?best)" "orderId (store t ! h') = oid" by blast
    have "h' = h"
      using wf len wf_inc_best(3)[OF w ne h'(1)] hl h'(2) id
      by (intro ids_distinct[of t]) (simp_all add: wf_def)
    with h'(1) nb show ?thesis by simp
  qed
  have 2: "store t' ! h = store t ! h" using fr hi nb by (rule frame_other)
  have 3: "h \<notin> set (queued (ladder_of sd' (ladder_map (opposite sd) (after_match lvl') t')))" for sd'
    using step_queued_subset[OF ne fr, of sd'] nq[of sd'] by blast
  show ?thesis
    using 1 2 3 hl st by (simp add: idle_new_def frame_length[OF fr])
qed

lemma addOrder_length:
  assumes wf: "wf s" and a: "addOrder s p qty sd ts = Some (oid', s')"
  shows "length (store s') = Suc (length (store s))"
proof -
  let ?h = "length (store s)"
  have "\<exists>s2. addSideOrder_loop sd ?h (add_start s p qty sd ts) = Some s2 \<and>
           wf_inc sd ?h s2 \<and> length (store s2) = Suc ?h \<and> loop_exit sd ?h s2 \<and>
           addOrder s p qty sd ts = Some (nextOrderId s, add_finish sd ?h s2) \<and>
           wf (add_finish sd ?h s2)"
  proof (rule addOrder_rule[OF wf])
    show "length (store (add_start s p qty sd ts)) = Suc ?h" by simp
  next
    fix t lvl' t'
    assume "length (store t) = Suc ?h"
      "match_frame ?h (snd (hd (ladder_of (opposite sd) t))) t lvl' t'"
    then show "length (store (ladder_map (opposite sd) (after_match lvl') t')) = Suc ?h"
      by (simp add: frame_length)
  qed
  with a show ?thesis by (auto simp: add_finish_def)
qed

lemma addOrder_idle_new:
  assumes wf: "wf s" and k: "idle_new oid h s" and a: "addOrder s p qty sd ts = Some (oid', s')"
    and len: "length (store s') < 2 ^ 64"
  shows "idle_new oid h s'"
proof -
  let ?h = "length (store s)"
  let ?J = "\<lambda>t. idle_new oid h t \<and> length (store t) = Suc ?h"
  from k have hl: "h < ?h" and om: "orderMap s oid = Some h"
    and st: "status (store s ! h) = NEW"
    and nq: "\<And>sd'. h \<notin> set (queued (ladder_of sd' s))"
    by (simp_all add: idle_new_def)
  have l1: "Suc ?h < 2 ^ 64"
    using len addOrder_length[OF wf a] by simp
  have id: "orderId (store s ! h) = oid" using wf om by (simp add: wf_def index_ok_def)
  have "oid \<noteq> nextOrderId s"
    using next_id_fresh[of s h] wf l1 hl id by (simp add: wf_def)
  then have J0: "?J (add_start s p qty sd ts)"
    using om hl st nq by (simp add: idle_new_def nth_append)
  have "\<exists>s2. addSideOrder_loop sd ?h (add_start s p qty sd ts) = Some s2 \<and>
           wf_inc sd ?h s2 \<and> ?J s2 \<and> loop_exit sd ?h s2 \<and>
           addOrder s p qty sd ts = Some (nextOrderId s, add_finish sd ?h s2) \<and>
           wf (add_finish sd ?h s2)"
  proof (rule addOrder_rule[OF wf, of ?J, OF J0])
    fix t lvl' t'
    assume t: "wf_inc sd ?h t" "?J t" "\<not> loop_exit sd ?h t"
      "match_frame ?h (snd (hd (ladder_of (opposite sd) t))) t lvl' t'"
    from t(2) l1 have lt: "length (store t) < 2 ^ 64" by simp
    from hl have "h \<noteq> ?h" by simp
    from step_idle_new[OF t(1) _ this lt t(3,4)] t(2)
    show "?J (ladder_map (opposite sd) (after_match lvl') t')"
      by (simp add: frame_length[OF t(4)])
  qed
  then obtain s2 where s2: "idle_new oid h s2" "length (store s2) = Suc ?h"
    "addOrder s p qty sd ts = Some (nextOrderId s, add_finish sd ?h s2)"
    by blast
  with a have s': "s' = add_finish sd ?h s2" by simp
  have "h \<notin> set (queued (ladder_of sd' s'))" for sd'
    using s2(1) hl by (auto simp: s' add_finish_def ladder_addOrder_queued idle_new_def)
  with s2(1,2) show ?thesis
    by (simp add: idle_new_def s' add_finish_def)
qed

lemma step_idle_new_op:
  assumes wf: "wf s" and k: "idle_new oid h s" and x: "x \<noteq> Cancel oid"
    and st: "step s x = Some s'" and len: "length (store s') < 2 ^ 64"
  shows "idle_new oid h s' \<and> length (store s) \<le> length (store s')"
proof (cases x)
  case (Submit p qty sd ts)
  with st obtain oid' where a: "addOrder s p qty sd ts = Some (oid', s')" by auto
  from addOrder_idle_new[OF wf k a len] addOrder_length[OF wf a] show ?thesis by simp
next
  case (Cancel oid')
  with x have ne: "oid' \<noteq> oid" by simp
  from Cancel st have s': "s' = snd (cancelOrder s oid')" by simp
  show ?thesis
  proof (cases "\<exists>h'. orderMap s oid' = Some h' \<and> status (store s ! h') \<noteq> FILLED \<and>
                status (store s ! h') \<noteq> CANCELLED")
    case True
    then obtain h' where h': "orderMap s oid' = Some h'" "status (store s ! h') \<noteq> FILLED"
      "status (store s ! h') \<noteq> CANCELLED" by blast
    note c = cancelOrder_True[OF h']
    from k have om: "orderMap s oid = Some h" by (simp add: idle_new_def)
    have "orderId (store s ! h) = oid" "orderId (store s ! h') = oid'"
      using wf om h'(1) by (simp_all add: wf_def index_ok_def)
    with ne have hh: "h' \<noteq> h" by auto
    have "h \<notin> set (queued (ladder_of sd (snd (cancelOrder s oid'))))" for sd
      using k ladder_remove_queued_subset[of "store s" h' "price (store s ! h')" "ladder_of sd s"]
      by (auto simp: c(6) idle_new_def split: if_splits)
    then show ?thesis
      using k ne hh by (simp add: idle_new_def s' c(2,3))
  next
    case False
    with k show ?thesis by (simp add: s' cancelOrder_False)
  qed
next
  case (Modify oid' nq)
  with st have s': "s' = snd (modifyOrder s oid' nq)" by simp
  show ?thesis
  proof (cases "orderMap s oid'")
    case None
    with k show ?thesis by (simp add: s' modifyOrder_False)
  next
    case (Some h')
    note c = modifyOrder_True[OF Some, where nq = nq]
    have "h \<notin> set (queued (ladder_of sd (snd (modifyOrder s oid' nq))))" for sd
      using k by (simp add: c(6) queued_ladder_update_keep idle_new_def)
    then show ?thesis
      using k by (simp add: idle_new_def s' c(2,3))
  qed
qed

lemma run_idle_new:
  assumes "wf s" "idle_new oid h s" "Cancel oid \<notin> set xs" "run s xs = Some s'"
    "length (store s') < 2 ^ 64"
  shows "idle_new oid h s' \<and> length (store s) \<le> length (store s')"
  using assms
proof (induction xs arbitrary: s s' rule: rev_induct)
  case Nil
  then show ?case by simp
next
  case (snoc x xs)
  from snoc.prems(4) obtain s1 where s1: "run s xs = Some s1" "step s1 x = Some s'"
    by (auto simp: run_append split: Option.bind_splits)
  from run_wf[OF snoc.prems(1), of xs] s1(1) have wf1: "wf s1" by simp
  from snoc.prems(3) have x: "x \<noteq> Cancel oid" "Cancel oid \<notin> set xs" by auto
  have mono: "length (store s1) \<le> length (store s')"
  proof (cases x)
    case (Submit p qty sd ts)
    with s1(2) obtain oid' where "addOrder s1 p qty sd ts = Some (oid', s')" by auto
    from addOrder_length[OF wf1 this] show ?thesis by simp
  next
    case (Cancel oid')
    with s1(2) have s': "s' = snd (cancelOrder s1 oid')" by simp
    show ?thesis
    proof (cases "\<exists>h'. orderMap s1 oid' = Some h' \<and> status (store s1 ! h') \<noteq> FILLED \<and>
                status (store s1 ! h') \<noteq> CANCELLED")
      case True
      then obtain h' where h': "orderMap s1 oid' = Some h'" "status (store s1 ! h') \<noteq> FILLED"
        "status (store s1 ! h') \<noteq> CANCELLED" by blast
      show ?thesis by (simp add: s' cancelOrder_True(2)[OF h'])
    next
      case False
      then show ?thesis by (simp add: s' cancelOrder_False)
    qed
  next
    case (Modify oid' nq)
    with s1(2) have s': "s' = snd (modifyOrder s1 oid' nq)" by simp
    show ?thesis
      by (cases "orderMap s1 oid'") (simp_all add: s' modifyOrder_False modifyOrder_True(2))
  qed
  with snoc.prems(5) have "length (store s1) < 2 ^ 64" by simp
  from snoc.IH[OF snoc.prems(1,2) x(2) s1(1) this]
  have k1: "idle_new oid h s1" and l1: "length (store s) \<le> length (store s1)" by simp_all
  from step_idle_new_op[OF wf1 k1 x(1) s1(2) snoc.prems(5)] l1 show ?case by simp
qed

section \<open>Price-time priority\<close>

lemma body_maker:
  assumes "match_pre inc lvl s" "matchOrders_cond inc lvl s" "side (store s ! inc) = sd"
  shows "\<exists>tr. trades (snd (matchOrders_body inc lvl s)) = trades s @ [tr] \<and>
              maker sd tr = orderId (store s ! hd (orders lvl))"
  using assms(3) by (cases sd) (auto simp: body_trades[OF assms(1,2)] maker_def)

lemma body_served:
  assumes pre0: "match_pre inc lvl0 s0" and sd: "side (store s0 ! inc) = sd"
    and pre: "match_pre inc l1 s1" and fr: "match_frame inc lvl0 s0 l1 s1"
    and I: "served sd inc (store s0) (trades s0) (orders lvl0) (orders l1) s1"
    and c: "matchOrders_cond inc l1 s1"
  shows "served sd inc (store s0) (trades s0) (orders lvl0)
           (orders (fst (matchOrders_body inc l1 s1))) (snd (matchOrders_body inc l1 s1))"
proof -
  let ?r = "hd (orders l1)" and ?b = "matchOrders_body inc l1 s1"
  note h = cond_hd[OF pre c]
  from I h(6) obtain dn new where d: "trades s1 = trades s0 @ new"
    "map (maker sd) new = map (\<lambda>h. orderId (store s0 ! h)) dn"
    "orders lvl0 = dn @ orders l1" "\<forall>h \<in> set dn. isFilled (store s1 ! h)"
    unfolding served_def by blast
  have q: "orders l1 = ?r # tl (orders l1)" using h(7) by simp
  have r0: "?r \<in> set (orders lvl0)" using d(3) h(1) by simp
  have rlen: "?r < length (store s0)" using pre0 r0 by (simp add: match_pre_def)
  have inc0: "inc < length (store s0)" using pre0 by (simp add: match_pre_def)
  have side1: "side (store s1 ! inc) = sd" using frame_static(1)[OF fr inc0] sd by simp
  have id1: "orderId (store s1 ! ?r) = orderId (store s0 ! ?r)"
    using frame_static(3)[OF fr rlen] .
  from body_maker[OF pre c side1] obtain tr
    where tr: "trades (snd ?b) = trades s1 @ [tr]" "maker sd tr = orderId (store s1 ! ?r)"
    by blast
  have dist: "distinct (dn @ ?r # tl (orders l1))" "inc \<notin> set dn"
    using pre0 d(3) q by (auto simp: match_pre_def)
  have keep: "store (snd ?b) ! k = store s1 ! k" if "k \<in> set dn" for k
  proof (rule body_other[OF pre c])
    show "k \<noteq> inc" using that dist(2) by auto
    show "k \<noteq> ?r" using that dist(1) by auto
  qed
  show ?thesis unfolding served_def
  proof (intro exI[of _ "dn @ [?r]"] exI[of _ "new @ [tr]"] conjI impI ballI)
    show "trades (snd ?b) = trades s0 @ new @ [tr]" by (simp add: tr(1) d(1))
    show "map (maker sd) (new @ [tr]) = map (\<lambda>h. orderId (store s0 ! h)) (dn @ [?r])"
      by (simp add: d(2) tr(2) id1)
    show "prefix (dn @ [?r]) (orders lvl0)"
      by (subst d(3), subst (2) q) simp
    show "isFilled (store (snd ?b) ! k)" if "k \<in> set (butlast (dn @ [?r]))" for k
      using that keep[of k] d(4) by simp
  next
    assume nf: "\<not> isFilled (store (snd ?b) ! inc)"
    then have f: "isFilled (fill (store s1 ! ?r) (match_qty inc l1 s1))"
      using body_progress[OF pre c] by blast
    then have "orders (fst ?b) = tl (orders l1)" by (simp add: body_level[OF pre c])
    then show "orders lvl0 = (dn @ [?r]) @ orders (fst ?b)"
      using d(3) q by simp
    fix k assume k: "k \<in> set (dn @ [?r])"
    show "isFilled (store (snd ?b) ! k)"
    proof (cases "k = ?r")
      case True
      then show ?thesis using f by (simp add: body_resting[OF pre c])
    next
      case False
      with k have "k \<in> set dn" by simp
      then show ?thesis using keep[of k] d(4) by simp
    qed
  qed
qed

lemma matchOrders_served:
  assumes pre: "match_pre inc lvl s" and sd: "side (store s ! inc) = sd"
    and m: "matchOrders inc lvl s = Some (lvl', s')"
  shows "served sd inc (store s) (trades s) (orders lvl) (orders lvl') s'"
proof (rule matchOrders_result_inv[OF pre m,
         of "\<lambda>l1 s1. served sd inc (store s) (trades s) (orders lvl) (orders l1) s1"])
  show "served sd inc (store s) (trades s) (orders lvl) (orders lvl) s"
    unfolding served_def by (intro exI[of _ "[]"]) simp
next
  fix l1 s1
  assume "match_pre inc l1 s1" "match_frame inc lvl s l1 s1"
    "served sd inc (store s) (trades s) (orders lvl) (orders l1) s1" "matchOrders_cond inc l1 s1"
  then show "served sd inc (store s) (trades s) (orders lvl)
           (orders (fst (matchOrders_body inc l1 s1))) (snd (matchOrders_body inc l1 s1))"
    by (rule body_served[OF pre sd])
qed

lemma step_served:
  assumes w: "wf_inc sd inc t" and ne: "\<not> loop_exit sd inc t"
    and m: "matchOrders inc (snd (hd (ladder_of (opposite sd) t))) t = Some (lvl', t')"
    and fr: "match_frame inc (snd (hd (ladder_of (opposite sd) t))) t lvl' t'"
    and ex: "isFilled (store t' ! inc) \<or> isEmpty lvl'"
    and J: "served sd inc st0 T0 Q (queued (ladder_of (opposite sd) t)) t"
    and ids: "\<forall>h \<in> set Q. orderId (st0 ! h) = of_nat h + 1"
    and dist: "distinct Q" "inc \<notin> set Q"
  shows "served sd inc st0 T0 Q
           (queued (ladder_of (opposite sd) (ladder_map (opposite sd) (after_match lvl') t')))
           (ladder_map (opposite sd) (after_match lvl') t')"
proof -
  let ?m = "ladder_of (opposite sd) t"
  let ?best = "snd (hd ?m)"
  from ne have n: "?m \<noteq> []" and nf: "\<not> isFilled (store t ! inc)"
    by (simp_all add: loop_exit_def)
  from J nf obtain dn new where d: "trades t = T0 @ new"
    "map (maker sd) new = map (\<lambda>h. orderId (st0 ! h)) dn"
    "Q = dn @ queued ?m" "\<forall>h \<in> set dn. isFilled (store t ! h)"
    unfolding served_def by blast
  have qm: "queued ?m = orders ?best @ queued (tl ?m)" using n by (cases ?m) simp_all
  have sd: "side (store t ! inc) = sd" using w by (simp add: wf_inc_def)
  from matchOrders_served[OF step_match_pre[OF w ne] sd m]
  obtain d2 n2 where e: "trades t' = trades t @ n2"
    "map (maker sd) n2 = map (\<lambda>h. orderId (store t ! h)) d2"
    "prefix d2 (orders ?best)" "\<forall>h \<in> set (butlast d2). isFilled (store t' ! h)"
    "\<not> isFilled (store t' ! inc) \<longrightarrow>
       orders ?best = d2 @ orders lvl' \<and> (\<forall>h \<in> set d2. isFilled (store t' ! h))"
    unfolding served_def by blast
  have d2sub: "set d2 \<subseteq> set (orders ?best)" using e(3) by (rule set_mono_prefix)
  have idt: "orderId (store t ! h) = orderId (st0 ! h)" if "h \<in> set d2" for h
  proof -
    from that d2sub have b: "h \<in> set (orders ?best)" by blast
    have "h < length (store t)" by (rule wf_inc_best(3)[OF w ne b])
    moreover have "h \<in> set Q" using b d(3) qm by simp
    ultimately show ?thesis using w ids by (simp add: wf_inc_def wf_def ids_ok_def)
  qed
  have keep: "store t' ! k = store t ! k" if "k \<in> set dn" for k
  proof (rule frame_other[OF fr])
    show "k \<noteq> inc" using that dist(2) d(3) by auto
    show "k \<notin> set (orders ?best)" using that dist(1) d(3) qm by auto
  qed
  let ?t = "ladder_map (opposite sd) (after_match lvl') t'"
  show ?thesis unfolding served_def
  proof (intro exI[of _ "dn @ d2"] exI[of _ "new @ n2"] conjI impI ballI)
    show "trades ?t = T0 @ new @ n2" by (simp add: e(1) d(1))
    show "map (maker sd) (new @ n2) = map (\<lambda>h. orderId (st0 ! h)) (dn @ d2)"
      using idt by (simp add: d(2) e(2))
    show "prefix (dn @ d2) Q" using e(3) by (simp add: d(3) qm)
    show "isFilled (store ?t ! k)" if "k \<in> set (butlast (dn @ d2))" for k
    proof (cases "d2 = []")
      case True
      with that have "k \<in> set dn" by (auto dest: in_set_butlastD)
      then show ?thesis using keep[of k] d(4) by simp
    next
      case False
      with that have "k \<in> set dn \<or> k \<in> set (butlast d2)" by (simp add: butlast_append)
      then show ?thesis using keep[of k] d(4) e(4) by auto
    qed
  next
    assume "\<not> isFilled (store ?t ! inc)"
    then have nf': "\<not> isFilled (store t' ! inc)" by simp
    with ex have em: "orders lvl' = []" by (simp add: isEmpty_def)
    from nf' e(5) em have b: "orders ?best = d2" "\<forall>h \<in> set d2. isFilled (store t' ! h)"
      by simp_all
    have "ladder_of (opposite sd) ?t = tl ?m"
      using em by (simp add: after_match_def isEmpty_def match_frame_ladder_of[OF fr])
    then show "Q = (dn @ d2) @ queued (ladder_of (opposite sd) ?t)"
      by (simp add: d(3) qm b(1))
    fix k assume "k \<in> set (dn @ d2)"
    then show "isFilled (store ?t ! k)" using keep[of k] d(4) b(2) by auto
  qed
qed

lemma addOrder_served:
  assumes wf: "wf s" and a: "addOrder s p qty sd ts = Some (oid, s')"
  shows "\<exists>dn rest new. queued (ladder_of (opposite sd) s) = dn @ rest \<and>
           trades s' = trades s @ new \<and>
           map (maker sd) new = map (\<lambda>h. orderId (store s ! h)) dn \<and>
           (\<forall>h \<in> set (butlast dn). isFilled (store s' ! h))"
proof -
  let ?h = "length (store s)"
  let ?Q = "queued (ladder_of (opposite sd) s)"
  let ?J = "\<lambda>t. served sd ?h (store s) (trades s) ?Q (queued (ladder_of (opposite sd) t)) t"
  have valid: "h < ?h" if "h \<in> set ?Q" for h
    using that by (rule wf_queued_valid(1)[OF wf])
  have ids: "\<forall>h \<in> set ?Q. orderId (store s ! h) = of_nat h + 1"
    using valid wf by (simp add: wf_def ids_ok_def)
  have dist: "distinct ?Q" "?h \<notin> set ?Q"
    using wf valid by (auto simp: wf_def ladder_ok_def)
  have "\<exists>s2. addSideOrder_loop sd ?h (add_start s p qty sd ts) = Some s2 \<and>
           wf_inc sd ?h s2 \<and> ?J s2 \<and> loop_exit sd ?h s2 \<and>
           addOrder s p qty sd ts = Some (nextOrderId s, add_finish sd ?h s2) \<and>
           wf (add_finish sd ?h s2)"
  proof (rule addOrder_rule[OF wf])
    show "?J (add_start s p qty sd ts)"
      unfolding served_def by (intro exI[of _ "[]"]) simp
  next
    fix t lvl' t'
    assume "wf_inc sd ?h t" "?J t" "\<not> loop_exit sd ?h t"
      "matchOrders ?h (snd (hd (ladder_of (opposite sd) t))) t = Some (lvl', t')"
      "match_frame ?h (snd (hd (ladder_of (opposite sd) t))) t lvl' t'"
      "isFilled (store t' ! ?h) \<or> isEmpty lvl'"
    then show "?J (ladder_map (opposite sd) (after_match lvl') t')"
      using step_served[of sd ?h t lvl' t' "store s" "trades s" ?Q] ids dist by blast
  qed
  then obtain s2 where s2: "?J s2"
    "addOrder s p qty sd ts = Some (nextOrderId s, add_finish sd ?h s2)"
    by blast
  with a have s': "s' = add_finish sd ?h s2" by simp
  have f: "trades s' = trades s2" "store s' = store s2"
    by (simp_all add: s' add_finish_def)
  from s2(1) obtain dn new where d: "trades s2 = trades s @ new"
    "map (maker sd) new = map (\<lambda>h. orderId (store s ! h)) dn"
    "prefix dn ?Q" "\<forall>h \<in> set (butlast dn). isFilled (store s2 ! h)"
    unfolding served_def by blast
  from d(3) obtain rest where "?Q = dn @ rest" by (auto simp: prefix_def)
  with d show ?thesis unfolding f by blast
qed

lemma matchOrders_trades_grow:
  assumes pre: "match_pre inc lvl s" and c: "matchOrders_cond inc lvl s"
    and m: "matchOrders inc lvl s = Some (lvl', s')"
  shows "length (trades s) < length (trades s')"
proof -
  let ?I = "\<lambda>l1 s1. (l1 = lvl \<and> s1 = s) \<or> length (trades s) < length (trades s1)"
  have "\<exists>lvl' s'. matchOrders inc lvl s = Some (lvl', s') \<and> ?I lvl' s' \<and>
           match_frame inc lvl s lvl' s' \<and> match_pre inc lvl' s' \<and>
           \<not> matchOrders_cond inc lvl' s'"
  proof (rule matchOrders_rule2[OF pre])
    show "?I lvl s" by simp
  next
    fix l1 s1
    assume b: "match_pre inc l1 s1" "matchOrders_cond inc l1 s1" and i: "?I l1 s1"
    have "length (trades (snd (matchOrders_body inc l1 s1))) = Suc (length (trades s1))"
      by (simp add: body_trades[OF b])
    with i show "?I (fst (matchOrders_body inc l1 s1)) (snd (matchOrders_body inc l1 s1))"
      by auto
  qed
  with m c show ?thesis by auto
qed

lemma addOrder_trades_grow:
  assumes wf: "wf s" and a: "addOrder s p qty sd ts = Some (oid, s')"
  shows "trades s' = trades s \<longleftrightarrow>
           qty = 0 \<or> ladder_of (opposite sd) s = [] \<or>
           before (opposite sd) p (fst (hd (ladder_of (opposite sd) s)))"
proof -
  let ?h = "length (store s)"
  let ?S = "add_start s p qty sd ts"
  let ?J = "\<lambda>t. t = ?S \<or> length (trades s) < length (trades t)"
  have "\<exists>s2. addSideOrder_loop sd ?h ?S = Some s2 \<and>
           wf_inc sd ?h s2 \<and> ?J s2 \<and> loop_exit sd ?h s2 \<and>
           addOrder s p qty sd ts = Some (nextOrderId s, add_finish sd ?h s2) \<and>
           wf (add_finish sd ?h s2)"
  proof (rule addOrder_rule[OF wf])
    show "?J ?S" by simp
  next
    fix t lvl' t'
    assume t: "wf_inc sd ?h t" "?J t" "\<not> loop_exit sd ?h t"
      "matchOrders ?h (snd (hd (ladder_of (opposite sd) t))) t = Some (lvl', t')"
    let ?m = "ladder_of (opposite sd) t"
    from t(3) have n: "?m \<noteq> []" and nf: "\<not> isFilled (store t ! ?h)"
      by (simp_all add: loop_exit_def)
    from n have "hd ?m \<in> set ?m" by simp
    with t(1) have "orders (snd (hd ?m)) \<noteq> []"
      by (auto simp: wf_inc_def wf_def ladder_ok_def level_ok_def dest!: spec[of _ "opposite sd"])
    with nf have c: "matchOrders_cond ?h (snd (hd ?m)) t"
      by (simp add: matchOrders_cond_def isEmpty_def)
    have "length (trades t) < length (trades t')"
      by (rule matchOrders_trades_grow[OF step_match_pre[OF t(1,3)] c t(4)])
    moreover have "length (trades s) \<le> length (trades t)" using t(2) by auto
    ultimately show "?J (ladder_map (opposite sd) (after_match lvl') t')" by simp
  qed
  then obtain s2 where s2: "addSideOrder_loop sd ?h ?S = Some s2" "?J s2" "loop_exit sd ?h s2"
    "addOrder s p qty sd ts = Some (nextOrderId s, add_finish sd ?h s2)"
    by blast
  with a have s': "s' = add_finish sd ?h s2" by simp
  have f: "trades s' = trades s2" by (simp add: s' add_finish_def)
  have lv: "level_price (snd (hd (ladder_of (opposite sd) s))) = fst (hd (ladder_of (opposite sd) s))"
    if "ladder_of (opposite sd) s \<noteq> []"
  proof -
    from that have "hd (ladder_of (opposite sd) s) \<in> set (ladder_of (opposite sd) s)" by simp
    with wf show ?thesis
      by (auto simp: wf_def ladder_ok_def level_ok_def dest!: spec[of _ "opposite sd"])
  qed
  have ex: "loop_exit sd ?h ?S \<longleftrightarrow>
        qty = 0 \<or> ladder_of (opposite sd) s = [] \<or>
        before (opposite sd) p (fst (hd (ladder_of (opposite sd) s)))"
  proof (cases "ladder_of (opposite sd) s = []")
    case True
    then show ?thesis by (simp add: loop_exit_def)
  next
    case False
    then show ?thesis by (simp add: loop_exit_def isFilled_def mkOrder_def lv[OF False])
  qed
  show ?thesis
  proof (cases "loop_exit sd ?h ?S")
    case True
    then have "addSideOrder_loop sd ?h ?S = Some ?S"
      by (subst addSideOrder_loop.simps) (auto simp: loop_exit_def Let_def)
    with s2(1) have "s2 = ?S" by simp
    then have "trades s' = trades s" by (simp add: f)
    with True ex show ?thesis by simp
  next
    case False
    with s2(2,3) have "length (trades s) < length (trades s2)" by auto
    then have "trades s' \<noteq> trades s" by (auto simp: f)
    with False ex show ?thesis by simp
  qed
qed

subsection \<open>Queues are in the order of submission\<close>

lemma sorted_wrt_suffix: "suffix xs ys \<Longrightarrow> sorted_wrt P ys \<Longrightarrow> sorted_wrt P xs"
  by (auto simp: suffix_def sorted_wrt_append)

lemma fifo_ladder_after_match:
  assumes "fifo_ladder m" "m \<noteq> []" "suffix (orders lvl') (orders (snd (hd m)))"
  shows "fifo_ladder (after_match lvl' m)"
  unfolding fifo_ladder_def
proof
  fix e assume "e \<in> set (after_match lvl' m)"
  from set_after_match[OF this assms(2)] show "sorted_wrt (<) (orders (snd e))"
  proof
    assume "snd e = lvl'"
    moreover have "sorted_wrt (<) (orders (snd (hd m)))"
      using assms(1,2) by (simp add: fifo_ladder_def)
    ultimately show ?thesis using sorted_wrt_suffix[OF assms(3)] by simp
  next
    assume "e \<in> set (tl m)"
    then have "e \<in> set m" using assms(2) by (auto dest: list.set_sel(2))
    with assms(1) show ?thesis by (simp add: fifo_ladder_def)
  qed
qed

lemma fifo_ladder_addOrder:
  assumes f: "fifo_ladder m" and lt: "\<forall>k \<in> set (queued m). k < h"
  shows "fifo_ladder (ladder_addOrder bef st h m)"
proof (cases "ladder_find m (price (st ! h))")
  case None
  then show ?thesis using f
    by (simp add: ladder_addOrder_def fifo_ladder_def level_addOrder_def mkPriceLevel_def Let_def)
next
  case (Some lvl)
  show ?thesis unfolding fifo_ladder_def
  proof
    fix e assume "e \<in> set (ladder_addOrder bef st h m)"
    then have "e \<in> set (ladder_update (price (st ! h)) (\<lambda>l. level_addOrder st l h) m)"
      by (simp add: ladder_addOrder_def Some)
    from set_ladder_update[OF this] show "sorted_wrt (<) (orders (snd e))"
    proof
      assume "e \<in> set m"
      with f show ?thesis by (simp add: fifo_ladder_def)
    next
      assume "\<exists>l. (price (st ! h), l) \<in> set m \<and> e = (price (st ! h), level_addOrder st l h)"
      then obtain l where l: "(price (st ! h), l) \<in> set m"
        "e = (price (st ! h), level_addOrder st l h)" by blast
      from l(1) f have "sorted_wrt (<) (orders l)" by (auto simp: fifo_ladder_def)
      moreover have "\<forall>k \<in> set (orders l). k < h"
        using l(1) lt by (auto simp: set_queued)
      ultimately show ?thesis by (simp add: l(2) level_addOrder_def sorted_wrt_append)
    qed
  qed
qed

lemma fifo_ladder_remove:
  assumes f: "fifo_ladder m"
  shows "fifo_ladder (ladder_remove st h p m)"
proof (cases "ladder_find m p")
  case None
  then show ?thesis using f by (simp add: ladder_remove_def)
next
  case (Some lvl)
  have s: "sorted_wrt (<) (orders lvl)"
    using ladder_find_Some[OF Some] f by (auto simp: fifo_ladder_def)
  show ?thesis
  proof (cases "isEmpty (level_removeOrder st lvl h)")
    case True
    then show ?thesis using f set_ladder_erase[of p m]
      by (auto simp: ladder_remove_def Some fifo_ladder_def)
  next
    case False
    show ?thesis unfolding fifo_ladder_def
    proof
      fix e assume "e \<in> set (ladder_remove st h p m)"
      then have "e \<in> set (ladder_update p (\<lambda>l. level_removeOrder st lvl h) m)"
        by (simp add: ladder_remove_def Some False)
      from set_ladder_update[OF this] show "sorted_wrt (<) (orders (snd e))"
      proof
        assume "e \<in> set m"
        with f show ?thesis by (simp add: fifo_ladder_def)
      next
        assume "\<exists>l. (p, l) \<in> set m \<and> e = (p, level_removeOrder st lvl h)"
        then have "orders (snd e) = removeAll h (orders lvl)"
          by (auto simp: level_removeOrder_def)
        then show ?thesis using s by (simp add: removeAll_filter_not_eq sorted_wrt_filter)
      qed
    qed
  qed
qed

lemma fifo_ladder_update_total:
  assumes f: "fifo_ladder m"
  shows "fifo_ladder (ladder_update p (\<lambda>l. l\<lparr>totalQuantity := g l\<rparr>) m)"
  unfolding fifo_ladder_def
proof
  fix e assume "e \<in> set (ladder_update p (\<lambda>l. l\<lparr>totalQuantity := g l\<rparr>) m)"
  from set_ladder_update[OF this] f show "sorted_wrt (<) (orders (snd e))"
    by (auto simp: fifo_ladder_def)
qed

lemma addOrder_fifo:
  assumes wf: "wf s" and f: "fifo s" and a: "addOrder s p qty sd ts = Some (oid, s')"
  shows "fifo s'"
proof -
  let ?h = "length (store s)"
  have "\<exists>s2. addSideOrder_loop sd ?h (add_start s p qty sd ts) = Some s2 \<and>
           wf_inc sd ?h s2 \<and> fifo s2 \<and> loop_exit sd ?h s2 \<and>
           addOrder s p qty sd ts = Some (nextOrderId s, add_finish sd ?h s2) \<and>
           wf (add_finish sd ?h s2)"
  proof (rule addOrder_rule[OF wf])
    show "fifo (add_start s p qty sd ts)" using f by (simp add: fifo_def)
  next
    fix t lvl' t'
    assume t: "fifo t" "\<not> loop_exit sd ?h t"
      "match_frame ?h (snd (hd (ladder_of (opposite sd) t))) t lvl' t'"
    let ?t = "ladder_map (opposite sd) (after_match lvl') t'"
    from t(2) have n: "ladder_of (opposite sd) t \<noteq> []" by (simp add: loop_exit_def)
    have suf: "suffix (orders lvl') (orders (snd (hd (ladder_of (opposite sd) t))))"
      using t(3) by (simp add: match_frame_def)
    have "fifo_ladder (ladder_of sd' ?t)" for sd'
    proof (cases "sd' = opposite sd")
      case True
      then show ?thesis
        using fifo_ladder_after_match[OF _ n suf] t(1)
        by (simp add: fifo_def match_frame_ladder_of[OF t(3)])
    next
      case False
      then show ?thesis using t(1) by (simp add: fifo_def match_frame_ladder_of[OF t(3)])
    qed
    then show "fifo ?t" by (simp add: fifo_def)
  qed
  then obtain s2 where s2: "wf_inc sd ?h s2" "fifo s2"
    "addOrder s p qty sd ts = Some (nextOrderId s, add_finish sd ?h s2)"
    by blast
  with a have s': "s' = add_finish sd ?h s2" by simp
  have len: "length (store s2) = Suc ?h"
    using addOrder_length[OF wf a] by (simp add: s' add_finish_def split: if_splits)
  have lt: "\<forall>k \<in> set (queued (ladder_of sd s2)). k < ?h"
  proof
    fix k assume k: "k \<in> set (queued (ladder_of sd s2))"
    from s2(1) have w2: "wf s2" and "?h \<notin> set (queued (ladder_of sd s2))"
      by (simp_all add: wf_inc_def)
    with k have "k \<noteq> ?h" by auto
    moreover have "k < Suc ?h" using wf_queued_valid(1)[OF w2 k] len by simp
    ultimately show "k < ?h" by simp
  qed
  have "fifo_ladder (ladder_of sd' s')" for sd'
  proof (cases "sd' = sd \<and> \<not> isFilled (store s2 ! ?h)")
    case True
    then show ?thesis
      using fifo_ladder_addOrder[OF _ lt] s2(2) by (simp add: s' add_finish_def fifo_def)
  next
    case False
    then show ?thesis using s2(2) by (auto simp: s' add_finish_def fifo_def)
  qed
  then show ?thesis by (simp add: fifo_def)
qed

lemma step_fifo:
  assumes wf: "wf s" and f: "fifo s" and st: "step s x = Some s'"
  shows "fifo s'"
proof (cases x)
  case (Submit p qty sd ts)
  with st obtain oid where "addOrder s p qty sd ts = Some (oid, s')"
    by (auto split: option.splits)
  then show ?thesis by (rule addOrder_fifo[OF wf f])
next
  case (Cancel oid)
  with st have s': "s' = snd (cancelOrder s oid)" by simp
  show ?thesis
  proof (cases "orderMap s oid")
    case None
    then show ?thesis using f cancelOrder_False[of s oid] by (simp add: s')
  next
    case (Some h)
    show ?thesis
    proof (cases "status (store s ! h) = FILLED \<or> status (store s ! h) = CANCELLED")
      case True
      then show ?thesis using f cancelOrder_False[of s oid] Some by (simp add: s')
    next
      case False
      then have "fifo_ladder (ladder_of sd' s')" for sd'
        using cancelOrder_True(6)[of s oid h sd'] Some f fifo_ladder_remove
        by (simp add: s' fifo_def)
      then show ?thesis by (simp add: fifo_def)
    qed
  qed
next
  case (Modify oid nq)
  with st have s': "s' = snd (modifyOrder s oid nq)" by simp
  show ?thesis
  proof (cases "orderMap s oid")
    case None
    then show ?thesis using f modifyOrder_False[of s oid] by (simp add: s')
  next
    case (Some h)
    have "fifo_ladder (ladder_of sd' s')" for sd'
      using modifyOrder_True(6)[OF Some, where nq = nq and sd = sd'] f fifo_ladder_update_total
      by (simp add: s' fifo_def)
    then show ?thesis by (simp add: fifo_def)
  qed
qed

lemma run_fifo:
  assumes "wf s" "fifo s" "run s xs = Some s'"
  shows "fifo s'"
  using assms
proof (induction xs arbitrary: s)
  case Nil
  then show ?case by simp
next
  case (Cons x xs)
  from step_wf[OF Cons.prems(1), of x] obtain s1 where s1: "step s x = Some s1" "wf s1"
    by blast
  from step_fifo[OF Cons.prems(1,2) s1(1)] have "fifo s1" .
  with Cons.IH[OF s1(2)] Cons.prems(3) s1(1) show ?case by simp
qed

lemma fifo_emptyBook: "fifo emptyBook"
  by (simp add: fifo_def fifo_ladder_def emptyBook_def ladder_of_def)

lemma reachable_fifo: "run emptyBook xs = Some s \<Longrightarrow> fifo s"
  by (rule run_fifo[OF wf_emptyBook fifo_emptyBook])

lemma priority_asym:
  assumes "priority sd st a b"
  shows "\<not> priority sd st b a"
proof
  let ?p = "price (st ! a)" and ?q = "price (st ! b)"
  assume "priority sd st b a"
  with assms consider "before sd ?p ?q" "before sd ?q ?p" | "before sd ?p ?q" "?q = ?p"
    | "before sd ?q ?p" "?p = ?q" | "a < b" "b < a"
    unfolding priority_def by blast
  then show False
  proof cases
    case 1
    then have "before sd ?p ?p" by (rule before_trans)
    then show False by simp
  next
    case 2
    then show False by simp
  next
    case 3
    then show False by simp
  next
    case 4
    then show False by simp
  qed
qed

lemma priority_sorted:
  assumes "ladder_ok sd st m" "fifo_ladder m"
  shows "sorted_wrt (priority sd st) (queued m)"
  using assms
proof (induction m)
  case Nil
  then show ?case by simp
next
  case (Cons e m)
  from Cons.prems(1) have lo: "level_ok sd st e" and keys: "\<forall>k \<in> fst ` set m. before sd (fst e) k"
    and los: "\<forall>e' \<in> set m. level_ok sd st e'"
    by (auto simp: ladder_ok_def)
  have pe: "price (st ! a) = fst e" if "a \<in> set (orders (snd e))" for a
    using lo that by (simp add: level_ok_def)
  have "ladder_ok sd st m" using ladder_ok_tl[OF Cons.prems(1)] by simp
  moreover have "fifo_ladder m" using Cons.prems(2) by (simp add: fifo_ladder_def)
  ultimately have 1: "sorted_wrt (priority sd st) (queued m)" by (rule Cons.IH)
  have "sorted_wrt (<) (orders (snd e))" using Cons.prems(2) by (simp add: fifo_ladder_def)
  then have 2: "sorted_wrt (priority sd st) (orders (snd e))"
    by (rule sorted_wrt_mono_rel[rotated]) (simp add: priority_def pe)
  have 3: "priority sd st a b" if "a \<in> set (orders (snd e))" "b \<in> set (queued m)" for a b
  proof -
    from that(2) obtain e' where e': "e' \<in> set m" "b \<in> set (orders (snd e'))"
      by (auto simp: set_queued)
    with los have "price (st ! b) = fst e'" by (simp add: level_ok_def)
    moreover have "before sd (fst e) (fst e')" using keys e'(1) by simp
    ultimately show ?thesis using pe[OF that(1)] by (simp add: priority_def)
  qed
  from 1 2 3 show ?case by (simp add: sorted_wrt_append)
qed

lemma sorted_wrt_served:
  assumes s: "sorted_wrt R (dn @ rest)" and asym: "\<And>a b. R a b \<Longrightarrow> \<not> R b a"
    and a: "a \<in> set (dn @ rest)" and b: "b \<in> set dn" and r: "R a b"
  shows "a \<in> set (butlast dn)"
proof -
  from b have "dn \<noteq> []" by auto
  then have dn: "dn = butlast dn @ [last dn]" by simp
  from s have s': "sorted_wrt R (butlast dn @ last dn # rest)" by (subst (asm) dn) simp
  have nr: "a \<notin> set rest"
  proof
    assume "a \<in> set rest"
    with s b have "R b a" by (auto simp: sorted_wrt_append)
    with r asym show False by blast
  qed
  have nl: "a \<noteq> last dn"
  proof
    assume al: "a = last dn"
    from b dn have "b \<in> set (butlast dn) \<or> b = last dn" by (metis Un_iff set_append list.set(1,2) insertE empty_iff)
    then show False
    proof
      assume "b \<in> set (butlast dn)"
      with s' al have "R b a" by (auto simp: sorted_wrt_append)
      with r asym show False by blast
    next
      assume "b = last dn"
      with al r asym show False by blast
    qed
  qed
  from a nr have "a \<in> set dn" by simp
  then have "a \<in> set (butlast dn) \<or> a = last dn"
    by (subst (asm) dn) auto
  with nl show ?thesis by blast
qed

section \<open>The claims\<close>

subsection \<open>C1: the cached total of a price level\<close>

text \<open>
  C1 says that the cached \<^verbatim>\<open>totalQuantity\<close> of every price level equals the sum of the
  remaining quantities of the orders in its queue after every operation, and that each
  trade of quantity \<open>q\<close> against a resting order lowers the total of its level by \<open>q\<close>.
  \<^verbatim>\<open>matchOrders\<close> never writes \<^verbatim>\<open>totalQuantity\<close> on a fill; it calls
  \<^verbatim>\<open>PriceLevel::removeOrder\<close> only once the resting order is full, and that subtracts
  the remaining quantity, which is zero by then. After a sell of 50 at 100 and a buy of 30
  at 100, the ask level at 100 holds one order with 20 remaining and a cached total of 50.
\<close>

theorem level_total_stale_after_partial_fill:
  "run emptyBook [Submit 100 50 SELL 0, Submit 100 30 BUY 7] = Some book_partial \<and>
   asks book_partial = [(100, \<lparr>level_price = 100, totalQuantity = 50, orders = [0]\<rparr>)] \<and>
   level_sum (store book_partial) (snd (hd (asks book_partial))) = 20 \<and>
   totalQuantity (snd (hd (asks book_partial))) = 50"
proof -
  have "level_sum (store book_partial) (snd (hd (asks book_partial))) = 20"
    and "totalQuantity (snd (hd (asks book_partial))) = 50"
    and "asks book_partial = [(100, \<lparr>level_price = 100, totalQuantity = 50, orders = [0]\<rparr>)]"
    by (simp_all add: book_partial_def level_sum_def getRemainingQuantity_def)
  with run_book_partial show ?thesis by blast
qed

subsection \<open>C2: modify to a quantity not above the filled quantity\<close>

text \<open>
  C2 says that \<^verbatim>\<open>modify(orderId, newQuantity)\<close> with \<open>newQuantity \<le> filled\<close> sets the
  order's status to FILLED, removes it from its queue and from the index, appends no
  trade and leaves a remaining quantity of zero. The comment on \<^verbatim>\<open>modifyOrder\<close> calls it
  a cancel and replace, and \<^verbatim>\<open>matchOrders\<close> finalises a resting order as soon as it is
  full: status FILLED, out of the queue, out of the index. \<^verbatim>\<open>modifyOrder\<close> does none
  of this: it never reads \<^verbatim>\<open>filledQuantity\<close>, writes no status and erases nothing.
  After a sell of 50 at 100 and a buy of 30 at 100, order 1 is filled to 30;
  \<^verbatim>\<open>modifyOrder(1, 10)\<close> returns true and leaves order 1 with status PARTIAL_FILL, in
  the index and in the queue at 100, and its remaining quantity is \<open>10 - 30\<close> wrapped to
  \<open>2^32 - 20\<close>.
\<close>

theorem modifyOrder_below_filled_not_finalised:
  "run emptyBook [Submit 100 50 SELL 0, Submit 100 30 BUY 7] = Some book_partial \<and>
   orderMap book_partial 1 = Some 0 \<and>
   filledQuantity (store book_partial ! 0) = 30 \<and>
   fst (modifyOrder book_partial 1 10) = True \<and>
   status (store (snd (modifyOrder book_partial 1 10)) ! 0) = PARTIAL_FILL \<and>
   orderMap (snd (modifyOrder book_partial 1 10)) 1 = Some 0 \<and>
   asks (snd (modifyOrder book_partial 1 10)) =
     [(100, \<lparr>level_price = 100, totalQuantity = 10, orders = [0]\<rparr>)] \<and>
   getRemainingQuantity (store (snd (modifyOrder book_partial 1 10)) ! 0) = 4294967276"
proof -
  have "orderMap book_partial 1 = Some 0"
    and "filledQuantity (store book_partial ! 0) = 30"
    and "fst (modifyOrder book_partial 1 10) = True"
    and "status (store (snd (modifyOrder book_partial 1 10)) ! 0) = PARTIAL_FILL"
    and "orderMap (snd (modifyOrder book_partial 1 10)) 1 = Some 0"
    and "asks (snd (modifyOrder book_partial 1 10)) =
           [(100, \<lparr>level_price = 100, totalQuantity = 10, orders = [0]\<rparr>)]"
    and "getRemainingQuantity (store (snd (modifyOrder book_partial 1 10)) ! 0) = 4294967276"
    by (simp_all add: book_partial_def modifyOrder_def ladder_map_def getRemainingQuantity_def)
  with run_book_partial show ?thesis by blast
qed
subsection \<open>C3: malformed submissions\<close>

text \<open>
  C3 says that a submit with quantity 0, price 0 or an out-of-range side is rejected by a
  pre-validation: no change to the book, a distinguished return value, at most a REJECTED
  record. \<^verbatim>\<open>addOrder\<close> validates nothing and no code assigns REJECTED; the side is an
  \<^verbatim>\<open>enum class\<close> of two values. C3 as amended, for every book that can be reached
  from a new book: a submit with any price, any quantity and either side returns the next
  id, and no order of the book, before or after the submit, has status REJECTED. A submit
  with quantity 0, at any price and on either side, executes no trade and changes no
  ladder and no level; it mints the next id and records the order in the index with status
  NEW. A submit with a quantity above 0 that does not cross (the other side is empty, or
  its best price is not reached) rests in the ladder of its side at its price, whatever
  the price, 0 included.
\<close>

theorem addOrder_no_validation:
  assumes "run emptyBook xs = Some s"
  shows "(\<exists>s'. addOrder s p qty sd ts = Some (nextOrderId s, s') \<and>
              (\<forall>h < length (store s'). status (store s' ! h) \<noteq> REJECTED)) \<and>
         (\<forall>h < length (store s). status (store s ! h) \<noteq> REJECTED) \<and>
         addOrder s p 0 sd ts =
           Some (nextOrderId s,
                 s\<lparr>store := store s @ [mkOrder (nextOrderId s) ts p 0 sd],
                   nextOrderId := nextOrderId s + 1,
                   orderMap := (orderMap s)(nextOrderId s \<mapsto> length (store s))\<rparr>) \<and>
         (qty \<noteq> 0 \<and>
          (ladder_of (opposite sd) s = [] \<or>
           before (opposite sd) p (fst (hd (ladder_of (opposite sd) s)))) \<longrightarrow>
            addOrder s p qty sd ts =
              Some (nextOrderId s,
                    ladder_map sd
                      (ladder_addOrder (before sd)
                         (store s @ [mkOrder (nextOrderId s) ts p qty sd]) (length (store s)))
                      (s\<lparr>store := store s @ [mkOrder (nextOrderId s) ts p qty sd],
                         nextOrderId := nextOrderId s + 1,
                         orderMap := (orderMap s)(nextOrderId s \<mapsto> length (store s))\<rparr>)))"
proof -
  have wf: "wf s" using assms by (rule reachable_wf)
  from addOrder_wf[OF wf, of p qty sd ts] obtain s'
    where s': "addOrder s p qty sd ts = Some (nextOrderId s, s')" "wf s'" by blast
  have 1: "\<exists>s'. addOrder s p qty sd ts = Some (nextOrderId s, s') \<and>
              (\<forall>h < length (store s'). status (store s' ! h) \<noteq> REJECTED)"
    using s' by (auto simp: wf_def no_rejected_def)
  have 2: "\<forall>h < length (store s). status (store s ! h) \<noteq> REJECTED"
    using wf by (simp add: wf_def no_rejected_def)
  have 3: "addOrder s p 0 sd ts =
           Some (nextOrderId s,
                 s\<lparr>store := store s @ [mkOrder (nextOrderId s) ts p 0 sd],
                   nextOrderId := nextOrderId s + 1,
                   orderMap := (orderMap s)(nextOrderId s \<mapsto> length (store s))\<rparr>)"
    by (cases sd)
       (simp_all add: addOrder_def addBuyOrder_def addSellOrder_def addSideOrder_def
          addSideOrder_loop.simps mkOrder_def isFilled_def Let_def)
  from 1 2 3 addOrder_not_crossing[OF wf, of qty sd p ts] show ?thesis
    by (simp add: add_start_def)
qed

text \<open>An instance on the book of scenario S1 (a bid at 10050, an ask at 10055): a buy of
  5 at price 0 gets id 3 and rests in a new bid level at price 0; a buy of 0 at price 0
  leaves the bids as they are; no order is REJECTED.\<close>

theorem addOrder_no_validation_witness:
  "run emptyBook [Submit 10050 100 BUY 0, Submit 10055 120 SELL 1] = Some book_two_sided \<and>
   (5 :: u32) \<noteq> 0 \<and>
   before (opposite BUY) 0 (fst (hd (ladder_of (opposite BUY) book_two_sided))) \<and>
   map_option fst (addOrder book_two_sided 0 5 BUY 2) = Some 3 \<and>
   map_option (bids \<circ> snd) (addOrder book_two_sided 0 5 BUY 2) =
     Some [(10050, \<lparr>level_price = 10050, totalQuantity = 100, orders = [0]\<rparr>),
           (0, \<lparr>level_price = 0, totalQuantity = 5, orders = [2]\<rparr>)] \<and>
   map_option (map status \<circ> store \<circ> snd) (addOrder book_two_sided 0 5 BUY 2) =
     Some [NEW, NEW, NEW] \<and>
   map_option (map status \<circ> store \<circ> snd) (addOrder book_two_sided 0 0 BUY 2) =
     Some [NEW, NEW, NEW] \<and>
   map_option (bids \<circ> snd) (addOrder book_two_sided 0 0 BUY 2) = Some (bids book_two_sided)"
proof -
  have b: "(5 :: u32) \<noteq> 0"
    "before (opposite BUY) 0 (fst (hd (ladder_of (opposite BUY) book_two_sided)))"
    by (simp_all add: book_two_sided_def ladder_of_def)
  note t = addOrder_no_validation[OF run_book_two_sided, of 0 5 BUY 2]
  from t b have "addOrder book_two_sided 0 5 BUY 2 =
              Some (nextOrderId book_two_sided,
                    ladder_map BUY
                      (ladder_addOrder (before BUY)
                         (store book_two_sided @ [mkOrder (nextOrderId book_two_sided) 2 0 5 BUY])
                         (length (store book_two_sided)))
                      (book_two_sided\<lparr>store := store book_two_sided @
                                         [mkOrder (nextOrderId book_two_sided) 2 0 5 BUY],
                         nextOrderId := nextOrderId book_two_sided + 1,
                         orderMap := (orderMap book_two_sided)(nextOrderId book_two_sided \<mapsto>
                                        length (store book_two_sided))\<rparr>))"
    by blast
  then have c: "map_option fst (addOrder book_two_sided 0 5 BUY 2) = Some 3"
    "map_option (bids \<circ> snd) (addOrder book_two_sided 0 5 BUY 2) =
     Some [(10050, \<lparr>level_price = 10050, totalQuantity = 100, orders = [0]\<rparr>),
           (0, \<lparr>level_price = 0, totalQuantity = 5, orders = [2]\<rparr>)]"
    "map_option (map status \<circ> store \<circ> snd) (addOrder book_two_sided 0 5 BUY 2) =
     Some [NEW, NEW, NEW]"
    by (simp_all add: book_two_sided_def ladder_map_def ladder_addOrder_def ladder_find_def
          level_addOrder_def mkPriceLevel_def mkOrder_def getRemainingQuantity_def Let_def)
  from t have "addOrder book_two_sided 0 0 BUY 2 =
           Some (nextOrderId book_two_sided,
                 book_two_sided\<lparr>store := store book_two_sided @
                                    [mkOrder (nextOrderId book_two_sided) 2 0 0 BUY],
                   nextOrderId := nextOrderId book_two_sided + 1,
                   orderMap := (orderMap book_two_sided)(nextOrderId book_two_sided \<mapsto>
                                  length (store book_two_sided))\<rparr>)"
    by blast
  then have d: "map_option (map status \<circ> store \<circ> snd) (addOrder book_two_sided 0 0 BUY 2) =
     Some [NEW, NEW, NEW]"
    "map_option (bids \<circ> snd) (addOrder book_two_sided 0 0 BUY 2) = Some (bids book_two_sided)"
    by (simp_all add: book_two_sided_def mkOrder_def)
  from run_book_two_sided b c d show ?thesis by blast
qed

text \<open>C3 as stated fails on a new book: a submit with quantity 0 returns id 1 and puts
  the order in the index with status NEW, and a submit of 10 at price 0 rests in the bid
  ladder at price 0.\<close>

theorem addOrder_no_validation_counterexample:
  "addOrder emptyBook 100 0 BUY 0 =
     Some (1, emptyBook\<lparr>store := [mkOrder 1 0 100 0 BUY], nextOrderId := 2,
                        orderMap := [1 \<mapsto> 0]\<rparr>) \<and>
   status (mkOrder 1 0 100 0 BUY) = NEW \<and>
   addOrder emptyBook 0 10 BUY 0 =
     Some (1, emptyBook\<lparr>store := [mkOrder 1 0 0 10 BUY], nextOrderId := 2,
                        orderMap := [1 \<mapsto> 0],
                        bids := [(0, \<lparr>level_price = 0, totalQuantity = 10, orders = [0]\<rparr>)]\<rparr>)"
  by (simp add: eval_defs)

subsection \<open>C4: the trades of the log\<close>

text \<open>
  C4 says that every trade of the log has the resting order's price, a quantity above
  zero and the aggressor's timestamp. \<^verbatim>\<open>matchOrders\<close> takes the price from the resting
  order and the timestamp from the incoming one (\<open>run_trades_ok\<close> shows it for every
  run), and the quantity is the minimum of the two remaining quantities, which is above
  zero as long as every queued order has something remaining (\<open>run_pos_inv\<close>).
  \<^verbatim>\<open>matchOrders\<close> keeps it so by taking a full order out of its queue; \<^verbatim>\<open>modifyOrder\<close>
  does not: an order whose quantity it sets to its filled quantity stays in the queue
  with nothing remaining. After a sell of 50 at 100 and \<^verbatim>\<open>modifyOrder(1, 0)\<close>, a buy of
  10 at 100 trades 0 against order 1; the log holds a trade of quantity 0, and the buy is
  left with status PARTIAL_FILL and nothing filled.
\<close>

theorem zero_quantity_trade_after_modify:
  "map_option trades (run emptyBook [Submit 100 50 SELL 0, Modify 1 0, Submit 100 10 BUY 5]) =
     Some [\<lparr>buyOrderId = 2, sellOrderId = 1, trade_price = 100, trade_quantity = 0,
            trade_timestamp = 5\<rparr>] \<and>
   map_option (map status \<circ> store)
       (run emptyBook [Submit 100 50 SELL 0, Modify 1 0, Submit 100 10 BUY 5]) =
     Some [FILLED, PARTIAL_FILL] \<and>
   map_option (map filledQuantity \<circ> store)
       (run emptyBook [Submit 100 50 SELL 0, Modify 1 0, Submit 100 10 BUY 5]) =
     Some [0, 0]"
  by (simp add: eval_defs)

subsection \<open>C5: cancel\<close>




subsection \<open>C6: price-time priority\<close>

text \<open>
  C6: matching obeys price-time priority. The theorem is about a submit in any state the
  book can reach from a new book. \<open>queued (ladder_of (opposite sd) s)\<close> is the list of
  the orders that rest on the other side, the best level first (the lowest ask for an
  incoming buy, the highest bid for an incoming sell) and each level from the front of its
  queue; this list is in priority order: a better price first and, at one price, the
  earlier submission first. The trades of the submit are appended to the log, and their
  counterparties are, in the order of the trades, the orders of a front part \<open>dn\<close> of that
  list: the first trade is with the front order of the best level, and a resting order is
  the counterparty only after every order before it. There is a trade exactly when the
  quantity is not 0 and the incoming price reaches the best price of the other side. Every
  counterparty but the last is completely filled. So whenever an order \<open>b\<close> is a
  counterparty and a resting order \<open>a\<close> has priority over it (in particular A then B at
  one price), \<open>a\<close> is a counterparty as well, earlier, and is completely filled.
\<close>

theorem price_time_priority:
  assumes "run emptyBook xs = Some s" and "addOrder s p qty sd ts = Some (oid, s')"
  shows "\<exists>dn rest new.
     queued (ladder_of (opposite sd) s) = dn @ rest \<and>
     sorted_wrt (priority (opposite sd) (store s)) (dn @ rest) \<and>
     trades s' = trades s @ new \<and>
     map (maker sd) new = map (\<lambda>h. orderId (store s ! h)) dn \<and>
     (new = [] \<longleftrightarrow>
        qty = 0 \<or> ladder_of (opposite sd) s = [] \<or>
        before (opposite sd) p (fst (hd (ladder_of (opposite sd) s)))) \<and>
     (\<forall>h \<in> set (butlast dn). isFilled (store s' ! h)) \<and>
     (\<forall>a b. a \<in> set (dn @ rest) \<longrightarrow> b \<in> set dn \<longrightarrow> priority (opposite sd) (store s) a b \<longrightarrow>
        a \<in> set dn \<and> isFilled (store s' ! a))"
proof -
  have wf: "wf s" using assms(1) by (rule reachable_wf)
  have ff: "fifo s" using assms(1) by (rule reachable_fifo)
  let ?Q = "queued (ladder_of (opposite sd) s)"
  from addOrder_served[OF wf assms(2)] obtain dn rest new where
    d: "?Q = dn @ rest" "trades s' = trades s @ new"
       "map (maker sd) new = map (\<lambda>h. orderId (store s ! h)) dn"
       "\<forall>h \<in> set (butlast dn). isFilled (store s' ! h)"
    by blast
  have "sorted_wrt (priority (opposite sd) (store s)) ?Q"
    using wf ff by (intro priority_sorted) (simp_all add: wf_def fifo_def)
  then have srt: "sorted_wrt (priority (opposite sd) (store s)) (dn @ rest)"
    by (simp add: d(1))
  have g: "new = [] \<longleftrightarrow>
        qty = 0 \<or> ladder_of (opposite sd) s = [] \<or>
        before (opposite sd) p (fst (hd (ladder_of (opposite sd) s)))"
    using addOrder_trades_grow[OF wf assms(2)] by (simp add: d(2))
  have pr: "a \<in> set dn \<and> isFilled (store s' ! a)"
    if "a \<in> set (dn @ rest)" "b \<in> set dn" "priority (opposite sd) (store s) a b" for a b
  proof -
    have "a \<in> set (butlast dn)"
      using srt _ that by (rule sorted_wrt_served) (rule priority_asym)
    with d(4) show ?thesis by (auto dest: in_set_butlastD)
  qed
  from d srt g pr show ?thesis by blast
qed

text \<open>An instance: asks of 10 at 10101 (id 1), 10 at 10100 (id 2) and 10 at 10100 (id 3),
  then a buy of 15 at 10101. The priority list is id 2, id 3, id 1; the buy trades 10 with
  id 2 and then 5 with id 3, and id 1, the oldest order but at the worse price, is
  untouched.\<close>

theorem price_time_priority_witness:
  "run emptyBook [Submit 10101 10 SELL 0, Submit 10100 10 SELL 1, Submit 10100 10 SELL 2]
     = Some book_queue \<and>
   addOrder book_queue 10101 15 BUY 3 = Some (4, snd (the (addOrder book_queue 10101 15 BUY 3))) \<and>
   queued (asks book_queue) = [1, 2, 0] \<and>
   map (\<lambda>h. orderId (store book_queue ! h)) [1, 2, 0] = [2, 3, 1] \<and>
   map (maker BUY) (trades (snd (the (addOrder book_queue 10101 15 BUY 3)))) = [2, 3] \<and>
   map trade_quantity (trades (snd (the (addOrder book_queue 10101 15 BUY 3)))) = [10, 5] \<and>
   map status (store (snd (the (addOrder book_queue 10101 15 BUY 3)))) =
     [NEW, FILLED, PARTIAL_FILL, FILLED] \<and>
   (\<exists>dn rest new.
      queued (ladder_of (opposite BUY) book_queue) = dn @ rest \<and>
      trades (snd (the (addOrder book_queue 10101 15 BUY 3))) = trades book_queue @ new \<and>
      map (maker BUY) new = map (\<lambda>h. orderId (store book_queue ! h)) dn \<and>
      (\<forall>h \<in> set (butlast dn). isFilled (store (snd (the (addOrder book_queue 10101 15 BUY 3))) ! h)))"
proof -
  have a: "run emptyBook [Submit 10101 10 SELL 0, Submit 10100 10 SELL 1, Submit 10100 10 SELL 2]
     = Some book_queue"
    by (simp add: eval_defs book_queue_def) (simp add: numeral_2_eq_2)
  have b: "addOrder book_queue 10101 15 BUY 3 =
             Some (4, snd (the (addOrder book_queue 10101 15 BUY 3)))"
    by (simp add: eval_defs book_queue_def)
  have c: "queued (asks book_queue) = [1, 2, 0]"
    "map (\<lambda>h. orderId (store book_queue ! h)) [1, 2, 0] = [2, 3, 1]"
    by (simp_all add: book_queue_def queued_def mkOrder_def)
  have d: "map (maker BUY) (trades (snd (the (addOrder book_queue 10101 15 BUY 3)))) = [2, 3]"
    "map trade_quantity (trades (snd (the (addOrder book_queue 10101 15 BUY 3)))) = [10, 5]"
    "map status (store (snd (the (addOrder book_queue 10101 15 BUY 3)))) =
       [NEW, FILLED, PARTIAL_FILL, FILLED]"
    by (simp_all add: eval_defs book_queue_def maker_def)
  from price_time_priority[OF a b]
  have "\<exists>dn rest new.
      queued (ladder_of (opposite BUY) book_queue) = dn @ rest \<and>
      trades (snd (the (addOrder book_queue 10101 15 BUY 3))) = trades book_queue @ new \<and>
      map (maker BUY) new = map (\<lambda>h. orderId (store book_queue ! h)) dn \<and>
      (\<forall>h \<in> set (butlast dn). isFilled (store (snd (the (addOrder book_queue 10101 15 BUY 3))) ! h))"
    by blast
  with a b c d show ?thesis by blast
qed

subsection \<open>C7: filled quantity and original quantity\<close>

text \<open>
  C7 says that every order of every reachable book has \<open>0 \<le> filled \<le> original\<close>, and
  that the remaining quantity is \<open>original - filled\<close> without wrap-around.
  \<^verbatim>\<open>matchOrders\<close> fills by the minimum of the two remaining quantities, so submits and
  cancels keep \<open>filled \<le> original\<close> (\<open>run_fills_le\<close>). \<^verbatim>\<open>modifyOrder\<close>, which its
  comment calls a cancel and replace, writes the new quantity without looking at the
  filled quantity. After a sell of 50 at 100 and a buy of 30 at 100,
  \<^verbatim>\<open>modifyOrder(1, 10)\<close> leaves order 1 with quantity 10 and 30 filled; its remaining
  quantity wraps to \<open>2^32 - 20\<close>, and the next buy at 100 trades that amount against it.
\<close>

theorem filled_above_quantity_after_modify:
  "run emptyBook [Submit 100 50 SELL 0, Submit 100 30 BUY 7, Modify 1 10] = Some book_shrunk \<and>
   quantity (store book_shrunk ! 0) = 10 \<and>
   filledQuantity (store book_shrunk ! 0) = 30 \<and>
   \<not> filledQuantity (store book_shrunk ! 0) \<le> quantity (store book_shrunk ! 0) \<and>
   getRemainingQuantity (store book_shrunk ! 0) = 4294967276 \<and>
   map_option (map trade_quantity \<circ> trades) (run book_shrunk [Submit 100 4294967295 BUY 9]) =
     Some [30, 4294967276]"
  by (simp add: eval_defs book_shrunk_def)

subsection \<open>C8: the book is never locked or crossed\<close>

text \<open>
  C8: after any operation (submit, cancel, modify) returns, the best bid is strictly below
  the best ask whenever both ladders are non-empty. The theorem is about every sequence
  of operations on a new book: the sequence returns a book (no loop runs forever), and in
  that book \<^verbatim>\<open>getBestBid\<close> is below \<^verbatim>\<open>getBestAsk\<close> when neither ladder is empty.
\<close>

theorem book_never_crossed:
  "\<exists>s. run emptyBook xs = Some s \<and>
       (bids s \<noteq> [] \<and> asks s \<noteq> [] \<longrightarrow> getBestBid s < getBestAsk s)"
proof -
  from run_wf[OF wf_emptyBook, of xs] obtain s where s: "run emptyBook xs = Some s" "wf s"
    by blast
  have "getBestBid s < getBestAsk s" if "bids s \<noteq> []" "asks s \<noteq> []"
  proof -
    from that have "hd (bids s) \<in> set (bids s)" "hd (asks s) \<in> set (asks s)" by simp_all
    with s(2) have "fst (hd (bids s)) < fst (hd (asks s))" by (simp add: wf_def uncrossed_def)
    with that show ?thesis by (simp add: getBestBid_def getBestAsk_def)
  qed
  with s(1) show ?thesis by blast
qed

text \<open>Scenario S1 of the specification: best bid 10050, best ask 10055.\<close>

theorem book_never_crossed_witness:
  "run emptyBook [Submit 10050 100 BUY 0, Submit 10055 120 SELL 1] = Some book_two_sided \<and>
   bids book_two_sided \<noteq> [] \<and> asks book_two_sided \<noteq> [] \<and>
   getBestBid book_two_sided = 10050 \<and> getBestAsk book_two_sided = 10055 \<and>
   getBestBid book_two_sided < getBestAsk book_two_sided"
proof -
  have ne: "bids book_two_sided \<noteq> []" "asks book_two_sided \<noteq> []"
    and v: "getBestBid book_two_sided = 10050" "getBestAsk book_two_sided = 10055"
    by (simp_all add: book_two_sided_def getBestBid_def getBestAsk_def)
  from book_never_crossed[of "[Submit 10050 100 BUY 0, Submit 10055 120 SELL 1]"] ne
  have "getBestBid book_two_sided < getBestAsk book_two_sided"
    unfolding run_book_two_sided by simp
  with run_book_two_sided ne v show ?thesis by blast
qed

subsection \<open>C9: a submit with quantity 0\<close>

text \<open>
  C9: a submit with quantity 0, made in any state the book can reach from a new book,
  executes no trade and leaves both ladders as they are, so that no level is created or
  modified. The id it returns is in the index with status NEW, and after any further
  operations that run without error and do not cancel that id, the id is still in the
  index, bound to the same order, whose status is still NEW and which is queued in no
  level of either ladder; a cancel of the id then returns true. The ids are 64-bit
  counters: the statement is for runs in which fewer than \<open>2 ^ 64\<close> orders have been
  submitted, so that no id has been issued twice.
\<close>

theorem zero_quantity_order_stays_cancellable:
  assumes "run emptyBook xs = Some s"
    and "addOrder s p 0 sd ts = Some (oid, s1)"
    and "Cancel oid \<notin> set ys" and "run s1 ys = Some s2"
    and "length (store s2) < 2 ^ 64"
  shows "trades s1 = trades s \<and> bids s1 = bids s \<and> asks s1 = asks s \<and>
         orderMap s2 oid = Some (length (store s)) \<and>
         status (store s2 ! length (store s)) = NEW \<and>
         (\<forall>sd'. length (store s) \<notin> set (queued (ladder_of sd' s2))) \<and>
         fst (cancelOrder s2 oid)"
proof -
  let ?h = "length (store s)"
  have wf: "wf s" using assms(1) by (rule reachable_wf)
  from assms(2) have oid: "oid = nextOrderId s"
    and s1: "s1 = s\<lparr>store := store s @ [mkOrder (nextOrderId s) ts p 0 sd],
                     nextOrderId := nextOrderId s + 1,
                     orderMap := (orderMap s)(nextOrderId s \<mapsto> length (store s))\<rparr>"
    by (cases sd;
        auto simp add: addOrder_def addBuyOrder_def addSellOrder_def addSideOrder_def
          addSideOrder_loop.simps mkOrder_def isFilled_def Let_def)+
  have wf1: "wf s1" using addOrder_wf[OF wf, of p 0 sd ts] assms(2) by auto
  have "?h \<notin> set (queued (ladder_of sd' s))" for sd'
    using wf_queued_valid(1)[OF wf, of ?h sd'] by auto
  moreover have "ladder_of sd' s1 = ladder_of sd' s" for sd'
    by (simp add: s1 ladder_of_def)
  ultimately have "?h \<notin> set (queued (ladder_of sd' s1))" for sd'
    by simp
  then have k: "idle_new oid ?h s1"
    by (simp add: idle_new_def) (simp add: s1 oid)
  from run_idle_new[OF wf1 k assms(3,4,5)] have k2: "idle_new oid ?h s2" by simp
  then have "fst (cancelOrder s2 oid)"
    using cancelOrder_True(1)[of s2 oid ?h] by (simp add: idle_new_def)
  with k2 show ?thesis by (simp add: idle_new_def s1)
qed

text \<open>An instance: on a new book a buy of 0 at 100 gets id 1; after a sell of 5 at 100,
  which rests without trading, and a modify of order 1 to quantity 7, cancelling id 1
  returns true.\<close>

theorem zero_quantity_order_stays_cancellable_witness:
  "run emptyBook [] = Some emptyBook \<and>
   addOrder emptyBook 100 0 BUY 0 = Some (1, book_zero) \<and>
   Cancel 1 \<notin> set [Submit 100 5 SELL 3, Modify 1 7] \<and>
   run book_zero [Submit 100 5 SELL 3, Modify 1 7] = Some book_zero_later \<and>
   length (store book_zero_later) < 2 ^ 64 \<and>
   trades book_zero = [] \<and> bids book_zero = [] \<and> asks book_zero = [] \<and>
   orderMap book_zero_later 1 = Some 0 \<and> status (store book_zero_later ! 0) = NEW \<and>
   bids book_zero_later = [] \<and>
   fst (cancelOrder book_zero_later 1)"
proof -
  have a: "run emptyBook [] = Some emptyBook" by simp
  have b: "addOrder emptyBook 100 0 BUY 0 = Some (1, book_zero)"
    by (simp add: eval_defs book_zero_def)
  have c: "Cancel 1 \<notin> set [Submit 100 5 SELL 3, Modify 1 7]" by simp
  have d: "run book_zero [Submit 100 5 SELL 3, Modify 1 7] = Some book_zero_later"
    by (simp add: eval_defs book_zero_def book_zero_later_def)
  have e: "length (store book_zero_later) < 2 ^ 64" by (simp add: book_zero_later_def)
  have f: "trades book_zero = []" "bids book_zero = []" "asks book_zero = []"
    "orderMap book_zero_later 1 = Some 0" "status (store book_zero_later ! 0) = NEW"
    "bids book_zero_later = []"
    by (simp_all add: book_zero_def book_zero_later_def)
  from zero_quantity_order_stays_cancellable[OF a b c d e]
  have "fst (cancelOrder book_zero_later 1)" by blast
  with a b c d e f show ?thesis by blast
qed

subsection \<open>C10: what modify changes\<close>

text \<open>
  C10: a \<^verbatim>\<open>modifyOrder\<close> call that returns true changes the quantity field of the
  target order and, when the ladder of the order's side has a level at the order's price,
  that level's \<^verbatim>\<open>totalQuantity\<close>, which grows by \<open>newQuantity - oldQuantity\<close>. The
  order's other fields, every other order, the keys, prices and queues of both ladders,
  the index, the trade log and the id counter are unchanged.
\<close>

theorem modifyOrder_frame:
  assumes "modifyOrder s oid newQuantity = (True, s')"
  shows "\<exists>h. orderMap s oid = Some h \<and>
     store s' = (store s)[h := (store s ! h)\<lparr>quantity := newQuantity\<rparr>] \<and>
     orderMap s' = orderMap s \<and> trades s' = trades s \<and> nextOrderId s' = nextOrderId s \<and>
     ladder_of (opposite (side (store s ! h))) s' = ladder_of (opposite (side (store s ! h))) s \<and>
     ladder_of (side (store s ! h)) s' =
       ladder_update (price (store s ! h))
         (\<lambda>l. l\<lparr>totalQuantity := totalQuantity l + (newQuantity - quantity (store s ! h))\<rparr>)
         (ladder_of (side (store s ! h)) s) \<and>
     map fst (bids s') = map fst (bids s) \<and> map fst (asks s') = map fst (asks s) \<and>
     map (orders \<circ> snd) (bids s') = map (orders \<circ> snd) (bids s) \<and>
     map (orders \<circ> snd) (asks s') = map (orders \<circ> snd) (asks s) \<and>
     map (level_price \<circ> snd) (bids s') = map (level_price \<circ> snd) (bids s) \<and>
     map (level_price \<circ> snd) (asks s') = map (level_price \<circ> snd) (asks s)"
proof (cases "orderMap s oid")
  case None
  with assms show ?thesis by (simp add: modifyOrder_def)
next
  case (Some h)
  let ?f = "\<lambda>l. l\<lparr>totalQuantity := totalQuantity l + (newQuantity - quantity (store s ! h))\<rparr>"
  have s': "s' = ladder_map (side (store s ! h)) (ladder_update (price (store s ! h)) ?f)
                   (s\<lparr>store := (store s)[h := (store s ! h)\<lparr>quantity := newQuantity\<rparr>]\<rparr>)"
    using assms Some by (simp add: modifyOrder_def Let_def)
  have o: "\<And>p m. map (orders \<circ> snd) (ladder_update p ?f m) = map (orders \<circ> snd) m"
    by (rule ladder_update_snd_keep) simp
  have l: "\<And>p m. map (level_price \<circ> snd) (ladder_update p ?f m) = map (level_price \<circ> snd) m"
    by (rule ladder_update_snd_keep) simp
  show ?thesis
    unfolding s' using Some
    by (cases "side (store s ! h)") (simp_all add: ladder_map_def ladder_of_def o l)
qed

text \<open>On \<open>book_partial\<close>, \<^verbatim>\<open>modifyOrder(1, 70)\<close> returns true and raises the total of
  the ask level at 100 from 50 to 70.\<close>

theorem modifyOrder_frame_witness:
  "modifyOrder book_partial 1 70 = (True, snd (modifyOrder book_partial 1 70)) \<and>
   orderMap book_partial 1 = Some 0 \<and>
   store (snd (modifyOrder book_partial 1 70)) =
     (store book_partial)[0 := (store book_partial ! 0)\<lparr>quantity := 70\<rparr>] \<and>
   asks (snd (modifyOrder book_partial 1 70)) =
     [(100, \<lparr>level_price = 100, totalQuantity = 70, orders = [0]\<rparr>)] \<and>
   map (orders \<circ> snd) (asks (snd (modifyOrder book_partial 1 70))) =
     map (orders \<circ> snd) (asks book_partial)"
proof -
  have m: "modifyOrder book_partial 1 70 = (True, snd (modifyOrder book_partial 1 70))"
    by (simp add: modifyOrder_def book_partial_def)
  have a: "asks (snd (modifyOrder book_partial 1 70)) =
     [(100, \<lparr>level_price = 100, totalQuantity = 70, orders = [0]\<rparr>)]"
    by (simp add: modifyOrder_def book_partial_def ladder_map_def)
  have om: "orderMap book_partial 1 = Some 0"
    by (simp add: book_partial_def)
  from modifyOrder_frame[OF m] om
  have "store (snd (modifyOrder book_partial 1 70)) =
          (store book_partial)[0 := (store book_partial ! 0)\<lparr>quantity := 70\<rparr>] \<and>
        map (orders \<circ> snd) (asks (snd (modifyOrder book_partial 1 70))) =
          map (orders \<circ> snd) (asks book_partial)"
    by auto
  with m a om show ?thesis by blast
qed

end
